theory Spec2Isabelle
  imports Main "HOL-Library.Word"
begin

section \<open>Errors\<close>

text \<open>
  Every exception of the C++ sources is a value of \<open>error\<close>:
  \<^item> \<open>Runtime_error msg\<close> is the \<^verbatim>\<open>std::runtime_error\<close> of \<^verbatim>\<open>Overflow::check\<close>;
  \<^item> \<open>Cusparse_error prefix err\<close> is \<^verbatim>\<open>cusparse_error(#name + " : ", err)\<close>, thrown by
    \<^verbatim>\<open>CUSPARSE_ERROR_FUNC\<close>;
  \<^item> \<open>Cuda_error prefix err\<close> is \<^verbatim>\<open>cuda_error(#name + " : ", err)\<close>, thrown by
    \<^verbatim>\<open>CUDA_ERROR_FUNC\<close>;
  \<^item> \<open>Dangling_cell c\<close> marks an access through a pointer to an atomic that is not
    allocated (undefined behaviour in C++, made an explicit outcome here);
  \<^item> \<open>Std_terminate\<close> is \<^verbatim>\<open>std::terminate\<close>, reached when a destructor throws while
    another exception is unwinding the stack.
\<close>

datatype error =
    Runtime_error string
  | Cusparse_error string nat
  | Cuda_error string nat
  | Dangling_cell nat
  | Std_terminate

section \<open>Index overflow check (cusparse\_helper.hpp)\<close>

type_synonym int64_t = "64 word"

text \<open>
  \<^verbatim>\<open>std::abs\<close> on a 64-bit signed integer. Negating the most negative value overflows;
  on a two's complement machine the negation wraps around to the same value, which
  is what word negation does.
\<close>

definition std_abs :: "int64_t \<Rightarrow> int64_t" where
  "std_abs x = (if sint x < 0 then - x else x)"

definition overflow_message :: string where
  "overflow_message =
     ''Cusparse index overflow. cusparse does not support 64 bit integer as '' @
     ''data size. Thus, the data size should not be greater that maximum '' @
     ''supported size by 32 bit integer.''"

text \<open>
  \<^verbatim>\<open>Overflow<Index, T...>::check(index, next...)\<close>: the variadic template recursion is
  recursion over the list of arguments; \<^verbatim>\<open>Overflow<>::check()\<close> is the empty list.
  The comparison \<^verbatim>\<open>std::abs(index) >= (1LL << 31)\<close> is a signed 64-bit comparison.
\<close>

fun Overflow_check :: "int64_t list \<Rightarrow> error + unit" where
  "Overflow_check [] = Inr ()"
| "Overflow_check (index # next) =
     (if sint (push_bit 31 (1 :: int64_t)) \<le> sint (std_abs index)
      then Inl (Runtime_error overflow_message)
      else Overflow_check next)"

definition overflow_check :: "int64_t \<Rightarrow> int64_t list \<Rightarrow> error + unit" where
  "overflow_check index indices = Overflow_check (index # indices)"

text \<open>The most negative 64-bit integer, \<^verbatim>\<open>INT64_MIN\<close>.\<close>

definition INT64_MIN :: int64_t where
  "INT64_MIN = - (2 ^ 63)"

section \<open>The world: driver, vendor library, heap of atomic cells, thread-local cache\<close>

text \<open>Pointers and opaque handles are natural numbers; \<open>0\<close> is \<^verbatim>\<open>nullptr\<close>.\<close>

type_synonym CUcontext = nat
type_synonym CUstream = nat
type_synonym cusparseHandle_t = nat
type_synonym atomic_ptr = nat

text \<open>
  The log of everything the code does to the outside: calls into the CUDA driver,
  the vendor library and the SYCL runtime, and operations on heap-allocated
  \<^verbatim>\<open>std::atomic<cusparseHandle_t>\<close> cells.
\<close>

datatype event =
    Call_cuCtxGetCurrent
  | Call_cuCtxSetCurrent CUcontext
  | Call_cuStreamSynchronize CUstream
  | Call_cusparseCreate
  | Call_cusparseDestroy cusparseHandle_t
  | Call_cusparseGetStream cusparseHandle_t
  | Call_cusparseSetStream cusparseHandle_t CUstream
  | Call_contextSetExtendedDeleter CUcontext atomic_ptr
  | Atomic_new atomic_ptr
  | Atomic_load atomic_ptr
  | Atomic_exchange atomic_ptr
  | Atomic_delete atomic_ptr

text \<open>
  \<^item> \<open>current_ctx\<close>: the calling thread's active driver context;
  \<^item> \<open>handle_stream\<close>: the live vendor handles, each with the stream it is bound to;
  \<^item> \<open>handle_count\<close>: the number of handles created so far (the next one is fresh);
  \<^item> \<open>atomics\<close>: the heap of atomic cells, each holding a handle value;
  \<^item> \<open>atomic_count\<close>: the number of cells allocated so far;
  \<^item> \<open>cusparse_handle_mapper\<close>: the thread-local \<^verbatim>\<open>handle_helper.cusparse_handle_mapper_\<close>,
    an \<^verbatim>\<open>unordered_map\<close>, as the list of its entries in iteration order;
  \<^item> \<open>deleters\<close>: the extended deleters registered with the runtime;
  \<^item> \<open>trace\<close>: the log, oldest event first;
  \<^item> \<open>script\<close>: the status codes the driver and the vendor library will answer to the
    coming calls, one per call; once it is used up every call succeeds.
\<close>

record world =
  current_ctx :: CUcontext
  handle_stream :: "cusparseHandle_t \<rightharpoonup> CUstream"
  handle_count :: nat
  atomics :: "atomic_ptr \<rightharpoonup> cusparseHandle_t"
  atomic_count :: nat
  cusparse_handle_mapper :: "(CUcontext \<times> atomic_ptr) list"
  deleters :: "(CUcontext \<times> atomic_ptr) list"
  trace :: "event list"
  script :: "nat list"

type_synonym 'a result = "(error + 'a) \<times> world"

definition CUDA_SUCCESS :: nat where
  "CUDA_SUCCESS = 0"

definition CUSPARSE_STATUS_SUCCESS :: nat where
  "CUSPARSE_STATUS_SUCCESS = 0"

subsection \<open>The external entry points\<close>

text \<open>
  An external call is logged and answered with the next status of the script.
  A call on a handle that is not live is answered with a non-success status.
\<close>

definition external_call :: "event \<Rightarrow> world \<Rightarrow> nat \<times> world" where
  "external_call ev w =
     (case script w of
        [] \<Rightarrow> (0, w\<lparr>trace := trace w @ [ev]\<rparr>)
      | s # ss \<Rightarrow> (s, w\<lparr>trace := trace w @ [ev], script := ss\<rparr>))"

definition handle_call :: "event \<Rightarrow> cusparseHandle_t \<Rightarrow> world \<Rightarrow> nat \<times> world" where
  "handle_call ev h w =
     (case external_call ev w of
        (err, w1) \<Rightarrow> if err = 0 \<and> handle_stream w1 h = None then (1, w1) else (err, w1))"

definition cuCtxGetCurrent :: "world \<Rightarrow> nat \<times> CUcontext \<times> world" where
  "cuCtxGetCurrent w =
     (case external_call Call_cuCtxGetCurrent w of (err, w1) \<Rightarrow> (err, current_ctx w1, w1))"

definition cuCtxSetCurrent :: "CUcontext \<Rightarrow> world \<Rightarrow> nat \<times> world" where
  "cuCtxSetCurrent ctx w =
     (case external_call (Call_cuCtxSetCurrent ctx) w of
        (err, w1) \<Rightarrow> if err = 0 then (err, w1\<lparr>current_ctx := ctx\<rparr>) else (err, w1))"

definition cuStreamSynchronize :: "CUstream \<Rightarrow> world \<Rightarrow> nat \<times> world" where
  "cuStreamSynchronize s w = external_call (Call_cuStreamSynchronize s) w"

definition cusparseCreate :: "world \<Rightarrow> nat \<times> cusparseHandle_t \<times> world" where
  "cusparseCreate w =
     (case external_call Call_cusparseCreate w of
        (err, w1) \<Rightarrow>
          if err = 0
          then (let h = Suc (handle_count w1)
                in (err, h, w1\<lparr>handle_count := h, handle_stream := (handle_stream w1)(h \<mapsto> 0)\<rparr>))
          else (err, 0, w1))"

definition cusparseDestroy :: "cusparseHandle_t \<Rightarrow> world \<Rightarrow> nat \<times> world" where
  "cusparseDestroy h w =
     (case handle_call (Call_cusparseDestroy h) h w of
        (err, w1) \<Rightarrow>
          if err = 0 then (err, w1\<lparr>handle_stream := (handle_stream w1)(h := None)\<rparr>)
          else (err, w1))"

definition cusparseGetStream :: "cusparseHandle_t \<Rightarrow> world \<Rightarrow> nat \<times> CUstream \<times> world" where
  "cusparseGetStream h w =
     (case handle_call (Call_cusparseGetStream h) h w of
        (err, w1) \<Rightarrow> (err, (case handle_stream w1 h of None \<Rightarrow> 0 | Some s \<Rightarrow> s), w1))"

definition cusparseSetStream :: "cusparseHandle_t \<Rightarrow> CUstream \<Rightarrow> world \<Rightarrow> nat \<times> world" where
  "cusparseSetStream h s w =
     (case handle_call (Call_cusparseSetStream h s) h w of
        (err, w1) \<Rightarrow>
          if err = 0 then (err, w1\<lparr>handle_stream := (handle_stream w1)(h \<mapsto> s)\<rparr>)
          else (err, w1))"

definition contextSetExtendedDeleter :: "CUcontext \<Rightarrow> atomic_ptr \<Rightarrow> world \<Rightarrow> world" where
  "contextSetExtendedDeleter ctx user_data w =
     w\<lparr>deleters := deleters w @ [(ctx, user_data)],
       trace := trace w @ [Call_contextSetExtendedDeleter ctx user_data]\<rparr>"

subsection \<open>Atomic cells on the heap\<close>

text \<open>\<^verbatim>\<open>new std::atomic<cusparseHandle_t>(handle)\<close>: a fresh, non-null address.\<close>

definition new_atomic :: "cusparseHandle_t \<Rightarrow> world \<Rightarrow> atomic_ptr \<times> world" where
  "new_atomic handle w =
     (let c = Suc (atomic_count w)
      in (c, w\<lparr>atomic_count := c, atomics := (atomics w)(c \<mapsto> handle),
               trace := trace w @ [Atomic_new c]\<rparr>))"

definition atomic_load :: "atomic_ptr \<Rightarrow> world \<Rightarrow> cusparseHandle_t result" where
  "atomic_load c w =
     (case atomics w c of
        None \<Rightarrow> (Inl (Dangling_cell c), w)
      | Some h \<Rightarrow> (Inr h, w\<lparr>trace := trace w @ [Atomic_load c]\<rparr>))"

definition atomic_exchange :: "atomic_ptr \<Rightarrow> cusparseHandle_t \<Rightarrow> world \<Rightarrow> cusparseHandle_t result" where
  "atomic_exchange c v w =
     (case atomics w c of
        None \<Rightarrow> (Inl (Dangling_cell c), w)
      | Some h \<Rightarrow> (Inr h, w\<lparr>atomics := (atomics w)(c \<mapsto> v), trace := trace w @ [Atomic_exchange c]\<rparr>))"

definition delete_atomic :: "atomic_ptr \<Rightarrow> world \<Rightarrow> unit result" where
  "delete_atomic c w =
     (case atomics w c of
        None \<Rightarrow> (Inl (Dangling_cell c), w)
      | Some h \<Rightarrow> (Inr (), w\<lparr>atomics := (atomics w)(c := None), trace := trace w @ [Atomic_delete c]\<rparr>))"

subsection \<open>The operations of \<^verbatim>\<open>std::unordered_map\<close> that the code uses\<close>

definition find_entry :: "CUcontext \<Rightarrow> (CUcontext \<times> atomic_ptr) list \<Rightarrow> atomic_ptr option" where
  "find_entry k m = map_of m k"

definition erase_entry :: "CUcontext \<Rightarrow> (CUcontext \<times> atomic_ptr) list \<Rightarrow> (CUcontext \<times> atomic_ptr) list" where
  "erase_entry k m = filter (\<lambda>p. fst p \<noteq> k) m"

text \<open>
  \<^verbatim>\<open>insert\<close> leaves the map alone when the key is present; \<open>insert_entry\<close> returns the
  mapped value of the element its iterator points to, and the map.
\<close>

definition insert_entry ::
  "CUcontext \<times> atomic_ptr \<Rightarrow> (CUcontext \<times> atomic_ptr) list \<Rightarrow> atomic_ptr \<times> (CUcontext \<times> atomic_ptr) list" where
  "insert_entry p m =
     (case map_of m (fst p) of
        None \<Rightarrow> (snd p, m @ [p])
      | Some c \<Rightarrow> (c, m))"

section \<open>The handle cache (cusparse\_handle.hpp)\<close>

text \<open>
  The body of the loop of \<^verbatim>\<open>~cusparse_handle\<close> for one \<^verbatim>\<open>handle_pair\<close>. It returns the
  entry as the loop leaves it (\<^verbatim>\<open>handle_pair.second = nullptr\<close>), or the exception of
  \<^verbatim>\<open>CUSPARSE_ERROR_FUNC\<close>.
\<close>

definition drain_entry ::
  "CUcontext \<times> atomic_ptr \<Rightarrow> world \<Rightarrow> (CUcontext \<times> atomic_ptr) result" where
  "drain_entry handle_pair w =
     (if snd handle_pair \<noteq> 0 then
        (case atomic_exchange (snd handle_pair) 0 w of
           (Inl e, w1) \<Rightarrow> (Inl e, w1)
         | (Inr handle, w1) \<Rightarrow>
             if handle \<noteq> 0 then
               (case cusparseDestroy handle w1 of
                  (err, w2) \<Rightarrow>
                    if err \<noteq> CUSPARSE_STATUS_SUCCESS
                    then (Inl (Cusparse_error ''cusparseDestroy : '' err), w2)
                    else (Inr (fst handle_pair, 0), w2))
             else
               (case delete_atomic (snd handle_pair) w1 of
                  (Inl e, w2) \<Rightarrow> (Inl e, w2)
                | (Inr u, w2) \<Rightarrow> (Inr (fst handle_pair, 0), w2)))
      else (Inr handle_pair, w))"

text \<open>
  The loop \<^verbatim>\<open>for (auto &handle_pair : cusparse_handle_mapper_)\<close>: an exception leaves the
  loop at once, the entries after it are not visited.
\<close>

fun drain_entries ::
  "(CUcontext \<times> atomic_ptr) list \<Rightarrow> world \<Rightarrow> (CUcontext \<times> atomic_ptr) list result" where
  "drain_entries [] w = (Inr [], w)"
| "drain_entries (handle_pair # rest) w =
     (case drain_entry handle_pair w of
        (Inl e, w1) \<Rightarrow> (Inl e, w1)
      | (Inr p, w1) \<Rightarrow>
          (case drain_entries rest w1 of
             (Inl e, w2) \<Rightarrow> (Inl e, w2)
           | (Inr ps, w2) \<Rightarrow> (Inr (p # ps), w2)))"

text \<open>
  \<^verbatim>\<open>~cusparse_handle() noexcept(false)\<close>. After the loop the map is cleared; when the
  body throws, the map member is destroyed all the same, so the thread has no
  entries left in either case.
\<close>

definition cusparse_handle_dtor :: "world \<Rightarrow> unit result" where
  "cusparse_handle_dtor w =
     (case drain_entries (cusparse_handle_mapper w) w of
        (Inl e, w1) \<Rightarrow> (Inl e, w1\<lparr>cusparse_handle_mapper := []\<rparr>)
      | (Inr ps, w1) \<Rightarrow> (Inr (), w1\<lparr>cusparse_handle_mapper := []\<rparr>))"

section \<open>The scoped context handler (cusparse\_scope\_handle.cpp)\<close>

text \<open>
  A \<^verbatim>\<open>sycl::queue\<close>, reduced to what the code reads from it: the native context of
  \<^verbatim>\<open>queue.get_context()\<close> and the native stream of the queue.
\<close>

record queue =
  queue_context :: CUcontext
  queue_stream :: CUstream

text \<open>
  The fields of \<^verbatim>\<open>CusparseScopedContextHandler\<close>; \<open>placedContext\<close> is the native context
  of the \<^verbatim>\<open>sycl::context\<close> that \<^verbatim>\<open>placedContext_\<close> points to.
\<close>

record CusparseScopedContextHandler =
  placedContext :: CUcontext
  original :: CUcontext
  needToRecover :: bool

definition get_stream :: "queue \<Rightarrow> CUstream" where
  "get_stream q = queue_stream q"

definition get_context :: "queue \<Rightarrow> CUcontext" where
  "get_context q = queue_context q"

text \<open>The constructor. An exception leaves no handler behind.\<close>

definition CusparseScopedContextHandler_ctor ::
  "queue \<Rightarrow> world \<Rightarrow> CusparseScopedContextHandler result" where
  "CusparseScopedContextHandler_ctor q w =
     (let desired = queue_context q in
      case cuCtxGetCurrent w of
        (err, original_ctx, w1) \<Rightarrow>
          if err \<noteq> CUDA_SUCCESS then (Inl (Cuda_error ''cuCtxGetCurrent : '' err), w1)
          else if original_ctx \<noteq> desired then
            (case cuCtxSetCurrent desired w1 of
               (err2, w2) \<Rightarrow>
                 if err2 \<noteq> CUDA_SUCCESS then (Inl (Cuda_error ''cuCtxSetCurrent : '' err2), w2)
                 else (Inr \<lparr>placedContext = desired, original = original_ctx,
                            needToRecover = \<not> (original_ctx = 0)\<rparr>, w2))
          else (Inr \<lparr>placedContext = desired, original = original_ctx,
                     needToRecover = False\<rparr>, w1))"

text \<open>The destructor, \<^verbatim>\<open>noexcept(false)\<close>.\<close>

definition CusparseScopedContextHandler_dtor ::
  "CusparseScopedContextHandler \<Rightarrow> world \<Rightarrow> unit result" where
  "CusparseScopedContextHandler_dtor sc w =
     (if needToRecover sc then
        (case cuCtxSetCurrent (original sc) w of
           (err, w1) \<Rightarrow>
             if err \<noteq> CUDA_SUCCESS then (Inl (Cuda_error ''cuCtxSetCurrent : '' err), w1)
             else (Inr (), w1))
      else (Inr (), w))"

text \<open>
  \<^verbatim>\<open>ContextCallback(void *userData)\<close>, the extended deleter that the runtime calls when
  it disposes of a context.
\<close>

definition ContextCallback :: "atomic_ptr \<Rightarrow> world \<Rightarrow> unit result" where
  "ContextCallback userData w =
     (if userData = 0 then (Inr (), w)
      else
        (case atomic_exchange userData 0 w of
           (Inl e, w1) \<Rightarrow> (Inl e, w1)
         | (Inr handle, w1) \<Rightarrow>
             if handle \<noteq> 0 then
               (case cusparseDestroy handle w1 of
                  (err1, w2) \<Rightarrow>
                    if err1 \<noteq> CUSPARSE_STATUS_SUCCESS
                    then (Inl (Cusparse_error ''cusparseDestroy : '' err1), w2)
                    else (Inr (), w2))
             else delete_atomic userData w1))"

text \<open>The creation path of \<^verbatim>\<open>get_handle\<close>, from \<^verbatim>\<open>cusparseCreate\<close> to the end.\<close>

definition get_handle_create :: "CUcontext \<Rightarrow> CUstream \<Rightarrow> world \<Rightarrow> cusparseHandle_t result" where
  "get_handle_create piPlacedContext streamId w =
     (case cusparseCreate w of
        (err, handle, w1) \<Rightarrow>
          if err \<noteq> CUSPARSE_STATUS_SUCCESS then (Inl (Cusparse_error ''cusparseCreate : '' err), w1)
          else
            (case cusparseSetStream handle streamId w1 of
               (err2, w2) \<Rightarrow>
                 if err2 \<noteq> CUSPARSE_STATUS_SUCCESS
                 then (Inl (Cusparse_error ''cusparseSetStream : '' err2), w2)
                 else
                   (case new_atomic handle w2 of
                      (c, w3) \<Rightarrow>
                        (case insert_entry (piPlacedContext, c) (cusparse_handle_mapper w3) of
                           (second, m) \<Rightarrow>
                             (Inr handle,
                              contextSetExtendedDeleter piPlacedContext second
                                (w3\<lparr>cusparse_handle_mapper := m\<rparr>))))))"

definition get_handle ::
  "CusparseScopedContextHandler \<Rightarrow> queue \<Rightarrow> world \<Rightarrow> cusparseHandle_t result" where
  "get_handle sc q w =
     (let piPlacedContext = placedContext sc;
          streamId = get_stream q
      in case find_entry piPlacedContext (cusparse_handle_mapper w) of
           None \<Rightarrow> get_handle_create piPlacedContext streamId w
         | Some second \<Rightarrow>
             if second = 0 then
               get_handle_create piPlacedContext streamId
                 (w\<lparr>cusparse_handle_mapper := erase_entry piPlacedContext (cusparse_handle_mapper w)\<rparr>)
             else
               (case atomic_load second w of
                  (Inl e, w1) \<Rightarrow> (Inl e, w1)
                | (Inr handle, w1) \<Rightarrow>
                    if handle \<noteq> 0 then
                      (case cusparseGetStream handle w1 of
                         (err, currentStreamId, w2) \<Rightarrow>
                           if err \<noteq> CUSPARSE_STATUS_SUCCESS
                           then (Inl (Cusparse_error ''cusparseGetStream : '' err), w2)
                           else if currentStreamId \<noteq> streamId then
                             (case cusparseSetStream handle streamId w2 of
                                (err2, w3) \<Rightarrow>
                                  if err2 \<noteq> CUSPARSE_STATUS_SUCCESS
                                  then (Inl (Cusparse_error ''cusparseSetStream : '' err2), w3)
                                  else (Inr handle, w3))
                           else (Inr handle, w2))
                    else
                      get_handle_create piPlacedContext streamId
                        (w1\<lparr>cusparse_handle_mapper :=
                              erase_entry piPlacedContext (cusparse_handle_mapper w1)\<rparr>)))"

text \<open>
  Modelled from the spec: \<^verbatim>\<open>wait_stream\<close> is declared in cusparse\_scope\_handle.hpp,
  which is not among the sources. The spec: it "blocks until all work previously
  submitted to Q's stream has completed", and its failure is a "stream-sync error".
\<close>

definition wait_stream :: "CusparseScopedContextHandler \<Rightarrow> queue \<Rightarrow> world \<Rightarrow> unit result" where
  "wait_stream sc q w =
     (case cuStreamSynchronize (get_stream q) w of
        (err, w1) \<Rightarrow>
          if err \<noteq> CUDA_SUCCESS then (Inl (Cuda_error ''cuStreamSynchronize : '' err), w1)
          else (Inr (), w1))"

section \<open>The host task (cusparse\_task.hpp)\<close>

text \<open>
  Leaving the scope of \<^verbatim>\<open>sc\<close> by an exception \<open>e\<close>: the destructor runs while the stack
  unwinds, and a destructor that throws then ends the program.
\<close>

definition unwind_handler :: "CusparseScopedContextHandler \<Rightarrow> error \<Rightarrow> world \<Rightarrow> unit result" where
  "unwind_handler sc e w =
     (case CusparseScopedContextHandler_dtor sc w of
        (Inl e2, w1) \<Rightarrow> (Inl Std_terminate, w1)
      | (Inr u, w1) \<Rightarrow> (Inl e, w1))"

text \<open>
  The body of the lambda that \<^verbatim>\<open>host_task_internal\<close> hands to \<^verbatim>\<open>cgh.host_task\<close>, in the
  branch without \<^verbatim>\<open>__HIPSYCL__\<close>. The two-argument constructor of the handler is
  declared in the missing header; the constructor of cusparse\_scope\_handle.cpp
  stands for it, the interop handle playing no part.
\<close>

definition host_task_internal ::
  "queue \<Rightarrow> (CusparseScopedContextHandler \<Rightarrow> world \<Rightarrow> unit result) \<Rightarrow> world \<Rightarrow> unit result" where
  "host_task_internal q f w =
     (case CusparseScopedContextHandler_ctor q w of
        (Inl e, w1) \<Rightarrow> (Inl e, w1)
      | (Inr sc, w1) \<Rightarrow>
          (case f sc w1 of
             (Inl e, w2) \<Rightarrow> unwind_handler sc e w2
           | (Inr u, w2) \<Rightarrow>
               (case wait_stream sc q w2 of
                  (Inl e, w3) \<Rightarrow> unwind_handler sc e w3
                | (Inr u2, w3) \<Rightarrow> CusparseScopedContextHandler_dtor sc w3)))"

definition onemkl_cusparse_host_task ::
  "queue \<Rightarrow> (CusparseScopedContextHandler \<Rightarrow> world \<Rightarrow> unit result) \<Rightarrow> world \<Rightarrow> unit result" where
  "onemkl_cusparse_host_task q f w = host_task_internal q f w"

text \<open>
  The factory as the specification words it, for comparison with the code: it
  "constructs a scoped context handler, obtains a handle, invokes fn(handler,
  handle), and on return synchronizes the stream then destroys the handler".
\<close>

definition with_handle_spec ::
  "queue \<Rightarrow> (CusparseScopedContextHandler \<Rightarrow> cusparseHandle_t \<Rightarrow> world \<Rightarrow> unit result) \<Rightarrow>
   world \<Rightarrow> unit result" where
  "with_handle_spec q fn w =
     (case CusparseScopedContextHandler_ctor q w of
        (Inl e, w1) \<Rightarrow> (Inl e, w1)
      | (Inr sc, w1) \<Rightarrow>
          (case get_handle sc q w1 of
             (Inl e, w2) \<Rightarrow> unwind_handler sc e w2
           | (Inr handle, w2) \<Rightarrow>
               (case fn sc handle w2 of
                  (Inl e, w3) \<Rightarrow> unwind_handler sc e w3
                | (Inr u, w3) \<Rightarrow>
                    (case wait_stream sc q w3 of
                       (Inl e, w4) \<Rightarrow> unwind_handler sc e w4
                     | (Inr u2, w4) \<Rightarrow> CusparseScopedContextHandler_dtor sc w4))))"

section \<open>Drain and callback, one atomic action at a time\<close>

text \<open>
  The cache's destructor and the context callback may run on different threads.
  Each of them does two things to a cell: the atomic exchange, then either the
  destruction of the handle it obtained or the deletion of the cell. A program
  counter records where a party stands between the two.
\<close>

datatype pc = Start | Exchanged cusparseHandle_t | Done | Threw error

text \<open>The loop body of \<^verbatim>\<open>~cusparse_handle\<close> for the entry whose cell is \<open>second\<close>.\<close>

fun drain_visit_step :: "atomic_ptr \<Rightarrow> pc \<Rightarrow> world \<Rightarrow> pc \<times> world" where
  "drain_visit_step second Start w =
     (if second \<noteq> 0 then
        (case atomic_exchange second 0 w of
           (Inl e, w1) \<Rightarrow> (Threw e, w1)
         | (Inr handle, w1) \<Rightarrow> (Exchanged handle, w1))
      else (Done, w))"
| "drain_visit_step second (Exchanged handle) w =
     (if handle \<noteq> 0 then
        (case cusparseDestroy handle w of
           (err, w1) \<Rightarrow>
             if err \<noteq> CUSPARSE_STATUS_SUCCESS
             then (Threw (Cusparse_error ''cusparseDestroy : '' err), w1)
             else (Done, w1))
      else
        (case delete_atomic second w of
           (Inl e, w1) \<Rightarrow> (Threw e, w1)
         | (Inr u, w1) \<Rightarrow> (Done, w1)))"
| "drain_visit_step second Done w = (Done, w)"
| "drain_visit_step second (Threw e) w = (Threw e, w)"

text \<open>\<^verbatim>\<open>ContextCallback\<close> with \<^verbatim>\<open>userData = ptr\<close>.\<close>

fun callback_step :: "atomic_ptr \<Rightarrow> pc \<Rightarrow> world \<Rightarrow> pc \<times> world" where
  "callback_step ptr Start w =
     (if ptr = 0 then (Done, w)
      else
        (case atomic_exchange ptr 0 w of
           (Inl e, w1) \<Rightarrow> (Threw e, w1)
         | (Inr handle, w1) \<Rightarrow> (Exchanged handle, w1)))"
| "callback_step ptr (Exchanged handle) w =
     (if handle \<noteq> 0 then
        (case cusparseDestroy handle w of
           (err1, w1) \<Rightarrow>
             if err1 \<noteq> CUSPARSE_STATUS_SUCCESS
             then (Threw (Cusparse_error ''cusparseDestroy : '' err1), w1)
             else (Done, w1))
      else
        (case delete_atomic ptr w of
           (Inl e, w1) \<Rightarrow> (Threw e, w1)
         | (Inr u, w1) \<Rightarrow> (Done, w1)))"
| "callback_step ptr Done w = (Done, w)"
| "callback_step ptr (Threw e) w = (Threw e, w)"

datatype party = Cache_drain | Context_callback

record conc =
  drain_pc :: pc
  callback_pc :: pc
  shared :: world

fun conc_step :: "atomic_ptr \<Rightarrow> party \<Rightarrow> conc \<Rightarrow> conc" where
  "conc_step c Cache_drain s =
     (case drain_visit_step c (drain_pc s) (shared s) of
        (p, w) \<Rightarrow> s\<lparr>drain_pc := p, shared := w\<rparr>)"
| "conc_step c Context_callback s =
     (case callback_step c (callback_pc s) (shared s) of
        (p, w) \<Rightarrow> s\<lparr>callback_pc := p, shared := w\<rparr>)"

text \<open>A schedule says which party acts next; a party that has ended stays where it is.\<close>

fun run_schedule :: "atomic_ptr \<Rightarrow> party list \<Rightarrow> conc \<Rightarrow> conc" where
  "run_schedule c [] s = s"
| "run_schedule c (p # ps) s = run_schedule c ps (conc_step c p s)"

definition conc_init :: "world \<Rightarrow> conc" where
  "conc_init w = \<lparr>drain_pc = Start, callback_pc = Start, shared = w\<rparr>"

fun ended :: "pc \<Rightarrow> bool" where
  "ended Start = False"
| "ended (Exchanged h) = False"
| "ended Done = True"
| "ended (Threw e) = True"

text \<open>How a party that has ended left: normally, or by an exception.\<close>

fun outcome :: "pc \<Rightarrow> error + unit" where
  "outcome (Threw e) = Inl e"
| "outcome p = Inr ()"

section \<open>Reading the log\<close>

text \<open>
  The handles that \<^verbatim>\<open>cusparseDestroy\<close> was called on, the cells that were deleted, the
  cells that were exchanged, and the number of calls of \<^verbatim>\<open>cusparseCreate\<close>.
\<close>

fun destroyed :: "event list \<Rightarrow> cusparseHandle_t list" where
  "destroyed [] = []"
| "destroyed (Call_cusparseDestroy h # evs) = h # destroyed evs"
| "destroyed (ev # evs) = destroyed evs"

fun deleted :: "event list \<Rightarrow> atomic_ptr list" where
  "deleted [] = []"
| "deleted (Atomic_delete c # evs) = c # deleted evs"
| "deleted (ev # evs) = deleted evs"

fun exchanged :: "event list \<Rightarrow> atomic_ptr list" where
  "exchanged [] = []"
| "exchanged (Atomic_exchange c # evs) = c # exchanged evs"
| "exchanged (ev # evs) = exchanged evs"

fun created :: "event list \<Rightarrow> nat" where
  "created [] = 0"
| "created (Call_cusparseCreate # evs) = Suc (created evs)"
| "created (ev # evs) = created evs"

text \<open>
  Where the two parties can stand with respect to a cell that held \<open>h\<close>: not started,
  holding \<open>h\<close> after winning the exchange, having observed null, ended after the
  destruction or the deletion, ended by the exception of a failed destruction.
\<close>

datatype phase = Not_started | Holding | Saw_null | Ended | Destroy_threw | Unreachable

fun phase_of :: "cusparseHandle_t \<Rightarrow> pc \<Rightarrow> phase" where
  "phase_of h Start = Not_started"
| "phase_of h (Exchanged x) = (if x = h then Holding else if x = 0 then Saw_null else Unreachable)"
| "phase_of h Done = Ended"
| "phase_of h (Threw (Cusparse_error n e)) = Destroy_threw"
| "phase_of h (Threw e) = Unreachable"

text \<open>
  For each pair of phases that can occur: the content of the cell (\<open>None\<close> once it is
  deleted), whether the handle has been destroyed and whether the cell has been
  deleted.
\<close>

fun expected :: "cusparseHandle_t \<Rightarrow> phase \<Rightarrow> phase \<Rightarrow> (cusparseHandle_t option \<times> bool \<times> bool) option" where
  "expected h Not_started Not_started = Some (Some h, False, False)"
| "expected h Holding Not_started = Some (Some 0, False, False)"
| "expected h Holding Saw_null = Some (Some 0, False, False)"
| "expected h Holding Ended = Some (None, False, True)"
| "expected h Ended Not_started = Some (Some 0, True, False)"
| "expected h Ended Saw_null = Some (Some 0, True, False)"
| "expected h Ended Ended = Some (None, True, True)"
| "expected h Destroy_threw Not_started = Some (Some 0, True, False)"
| "expected h Destroy_threw Saw_null = Some (Some 0, True, False)"
| "expected h Destroy_threw Ended = Some (None, True, True)"
| "expected h Not_started Holding = Some (Some 0, False, False)"
| "expected h Saw_null Holding = Some (Some 0, False, False)"
| "expected h Ended Holding = Some (None, False, True)"
| "expected h Not_started Ended = Some (Some 0, True, False)"
| "expected h Saw_null Ended = Some (Some 0, True, False)"
| "expected h Not_started Destroy_threw = Some (Some 0, True, False)"
| "expected h Saw_null Destroy_threw = Some (Some 0, True, False)"
| "expected h Ended Destroy_threw = Some (None, True, True)"
| "expected h p q = None"

definition race_inv ::
  "atomic_ptr \<Rightarrow> cusparseHandle_t \<Rightarrow> cusparseHandle_t list \<Rightarrow> atomic_ptr list \<Rightarrow> conc \<Rightarrow> bool" where
  "race_inv c h ds xs s =
     (case expected h (phase_of h (drain_pc s)) (phase_of h (callback_pc s)) of
        None \<Rightarrow> False
      | Some (cell, destroy_done, delete_done) \<Rightarrow>
          atomics (shared s) c = cell \<and>
          destroyed (trace (shared s)) = ds @ (if destroy_done then [h] else []) \<and>
          deleted (trace (shared s)) = xs @ (if delete_done then [c] else []))"

text \<open>
  The cache holds \<open>h\<close> for the context \<open>k\<close>: the entry of \<open>k\<close> points to a cell whose
  content is the non-null handle \<open>h\<close>.
\<close>

definition cached :: "CUcontext \<Rightarrow> cusparseHandle_t \<Rightarrow> world \<Rightarrow> bool" where
  "cached k h w =
     (h \<noteq> 0 \<and> (\<exists>c. c \<noteq> 0 \<and> find_entry k (cusparse_handle_mapper w) = Some c \<and> atomics w c = Some h))"

section \<open>What stays of the cache while the thread goes on\<close>

text \<open>
  \<open>same_cache w w'\<close>: from \<open>w\<close> to \<open>w'\<close> the cells, the cache and the allocator of cells
  are unchanged, no handle was destroyed and none was forgotten by the library.
\<close>

definition same_cache :: "world \<Rightarrow> world \<Rightarrow> bool" where
  "same_cache w w' =
     (atomics w' = atomics w \<and> atomic_count w' = atomic_count w \<and>
      cusparse_handle_mapper w' = cusparse_handle_mapper w \<and>
      handle_count w \<le> handle_count w' \<and>
      (\<forall>x. handle_stream w x \<noteq> None \<longrightarrow> handle_stream w' x \<noteq> None))"

text \<open>
  The allocators are sound: \<^verbatim>\<open>new\<close> and \<^verbatim>\<open>cusparseCreate\<close> hand out what is not in
  use. No allocated cell lies beyond \<open>atomic_count\<close>, no cell holds a handle beyond
  \<open>handle_count\<close>, and no two cells hold the same non-null handle.
\<close>

definition world_wf :: "world \<Rightarrow> bool" where
  "world_wf w =
     ((\<forall>c. atomics w c \<noteq> None \<longrightarrow> c \<le> atomic_count w) \<and>
      (\<forall>c x. atomics w c = Some x \<longrightarrow> x \<le> handle_count w) \<and>
      (\<forall>c c' x. atomics w c = Some x \<longrightarrow> atomics w c' = Some x \<longrightarrow> x \<noteq> 0 \<longrightarrow> c = c'))"

text \<open>
  The cache's entry for the context \<open>k\<close> points to the cell \<open>c\<close>, which holds the live
  handle \<open>h\<close>.
\<close>

definition holds_handle :: "CUcontext \<Rightarrow> atomic_ptr \<Rightarrow> cusparseHandle_t \<Rightarrow> world \<Rightarrow> bool" where
  "holds_handle k c h w =
     (c \<noteq> 0 \<and> h \<noteq> 0 \<and> find_entry k (cusparse_handle_mapper w) = Some c \<and>
      atomics w c = Some h \<and> handle_stream w h \<noteq> None)"

text \<open>
  What may happen between two calls of \<open>get_handle\<close> while the thread lives: the
  thread constructs and destroys scoped handlers, asks for handles, waits on
  streams, and the runtime runs the context callback on a cell. The teardown of
  the thread's cache is not among them. An operation that throws leaves the world
  of the throw.
\<close>

datatype thread_op =
    Op_construct queue
  | Op_destroy CusparseScopedContextHandler
  | Op_get_handle CusparseScopedContextHandler queue
  | Op_wait_stream CusparseScopedContextHandler queue
  | Op_ContextCallback atomic_ptr

fun run_op :: "thread_op \<Rightarrow> world \<Rightarrow> world" where
  "run_op (Op_construct q) w = snd (CusparseScopedContextHandler_ctor q w)"
| "run_op (Op_destroy sc) w = snd (CusparseScopedContextHandler_dtor sc w)"
| "run_op (Op_get_handle sc q) w = snd (get_handle sc q w)"
| "run_op (Op_wait_stream sc q) w = snd (wait_stream sc q w)"
| "run_op (Op_ContextCallback c) w = snd (ContextCallback c w)"

fun run_ops :: "thread_op list \<Rightarrow> world \<Rightarrow> world" where
  "run_ops [] w = w"
| "run_ops (op # ops) w = run_ops ops (run_op op w)"

text \<open>
  \<open>cell_added k w w'\<close>: from \<open>w\<close> to \<open>w'\<close> a handle was created, a cell was allocated for
  it and entered in the cache under \<open>k\<close>.
\<close>

definition cell_added :: "CUcontext \<Rightarrow> world \<Rightarrow> world \<Rightarrow> bool" where
  "cell_added k w w' =
     (atomics w' = (atomics w)(Suc (atomic_count w) \<mapsto> Suc (handle_count w)) \<and>
      atomic_count w' = Suc (atomic_count w) \<and>
      Suc (handle_count w) \<le> handle_count w' \<and>
      cusparse_handle_mapper w' = cusparse_handle_mapper w @ [(k, Suc (atomic_count w))] \<and>
      (\<forall>x. handle_stream w x \<noteq> None \<longrightarrow> handle_stream w' x \<noteq> None))"

section \<open>Concrete worlds, queues and tasks\<close>

text \<open>A thread that has not touched the library yet, on a driver with no active context.\<close>

definition fresh_world :: world where
  "fresh_world =
     \<lparr>current_ctx = 0, handle_stream = Map.empty, handle_count = 0, atomics = Map.empty,
      atomic_count = 0, cusparse_handle_mapper = [], deleters = [], trace = [], script = []\<rparr>"

text \<open>A thread whose active context is some other context, \<open>7\<close>.\<close>

definition busy_world :: world where
  "busy_world = fresh_world\<lparr>current_ctx := 7\<rparr>"

text \<open>A thread whose cache holds a handle for each of two contexts.\<close>

definition two_entry_world :: world where
  "two_entry_world =
     fresh_world\<lparr>handle_stream := [1 \<mapsto> 10, 2 \<mapsto> 20], handle_count := 2,
                 atomics := [1 \<mapsto> 1, 2 \<mapsto> 2], atomic_count := 2,
                 cusparse_handle_mapper := [(100, 1), (200, 2)]\<rparr>"

text \<open>The same, with a vendor library that answers its next call with status 7.\<close>

definition failing_world :: world where
  "failing_world = two_entry_world\<lparr>script := [7]\<rparr>"

text \<open>The same again, the map iterating over its two entries in the other order.\<close>

definition failing_world_rev :: world where
  "failing_world_rev = failing_world\<lparr>cusparse_handle_mapper := [(200, 2), (100, 1)]\<rparr>"

text \<open>
  A schedule: the callback wins the exchange, the teardown observes null and deletes
  the cell, the callback destroys the handle last.
\<close>

definition example_schedule :: "party list" where
  "example_schedule = [Context_callback, Cache_drain, Cache_drain, Context_callback]"

definition example_queue :: queue where
  "example_queue = \<lparr>queue_context = 100, queue_stream = 10\<rparr>"

definition other_stream_queue :: queue where
  "other_stream_queue = \<lparr>queue_context = 100, queue_stream = 20\<rparr>"

definition example_handler :: CusparseScopedContextHandler where
  "example_handler = \<lparr>placedContext = 100, original = 0, needToRecover = False\<rparr>"

text \<open>
  A queue and a handler of another context, and a stretch of a thread's life: it
  works on the other context, that context is destroyed (the callback runs on its
  cell, the second one allocated), and the thread works on it again.
\<close>

definition other_context_queue :: queue where
  "other_context_queue = \<lparr>queue_context = 200, queue_stream = 30\<rparr>"

definition other_context_handler :: CusparseScopedContextHandler where
  "other_context_handler = \<lparr>placedContext = 200, original = 100, needToRecover = True\<rparr>"

definition example_ops :: "thread_op list" where
  "example_ops =
     [Op_construct other_context_queue,
      Op_get_handle other_context_handler other_context_queue,
      Op_wait_stream other_context_handler other_context_queue,
      Op_destroy other_context_handler,
      Op_ContextCallback 2,
      Op_get_handle other_context_handler other_context_queue]"

text \<open>A task that asks its handler for a handle, as the backend operations do.\<close>

definition example_task :: "CusparseScopedContextHandler \<Rightarrow> world \<Rightarrow> unit result" where
  "example_task sc w =
     (case get_handle sc example_queue w of
        (Inl e, w1) \<Rightarrow> (Inl e, w1)
      | (Inr handle, w1) \<Rightarrow> (Inr (), w1))"

text \<open>A task that does nothing, in the shape the code calls and in the shape the spec words.\<close>

definition noop_task :: "CusparseScopedContextHandler \<Rightarrow> world \<Rightarrow> unit result" where
  "noop_task sc w = (Inr (), w)"

definition noop_fn :: "CusparseScopedContextHandler \<Rightarrow> cusparseHandle_t \<Rightarrow> world \<Rightarrow> unit result" where
  "noop_fn sc handle w = (Inr (), w)"

section \<open>The overflow check: what it rejects\<close>

lemma sint_neg64:
  assumes "sint (x :: int64_t) \<noteq> - (2 ^ 63)"
  shows "sint (- x) = - sint x"
proof -
  have lo: "- (2 ^ 63) \<le> sint x" using sint_ge [of x] by simp
  have hi: "sint x < 2 ^ 63" using sint_lt [of x] by simp
  have "signed_take_bit 63 (- sint x) = - sint x"
    using lo hi assms by (intro signed_take_bit_int_eq_self) auto
  then show ?thesis by (simp add: sint_word_minus)
qed

lemma sint_std_abs: "sint x \<noteq> - (2 ^ 63) \<Longrightarrow> sint (std_abs x) = \<bar>sint x\<bar>"
  by (simp add: std_abs_def sint_neg64)

lemma sint_INT64_MIN: "sint INT64_MIN = - (2 ^ 63)"
  by (simp add: INT64_MIN_def)

lemma std_abs_INT64_MIN: "std_abs INT64_MIN = INT64_MIN"
  by (simp add: std_abs_def INT64_MIN_def)

text \<open>
  Apart from \<^verbatim>\<open>INT64_MIN\<close>, an argument of magnitude \<open>2 ^ 31\<close> or more makes the check
  throw, wherever it stands in the argument list and whatever its sign.
\<close>

lemma Overflow_check_throws:
  "i \<in> set xs \<Longrightarrow> sint i \<noteq> - (2 ^ 63) \<Longrightarrow> 2 ^ 31 \<le> \<bar>sint i\<bar> \<Longrightarrow>
   Overflow_check xs = Inl (Runtime_error overflow_message)"
proof (induction xs)
  case Nil
  then show ?case by simp
next
  case (Cons x xs)
  show ?case
  proof (cases "i = x")
    case True
    with Cons.prems show ?thesis by (simp add: sint_std_abs)
  next
    case False
    with Cons show ?thesis by simp
  qed
qed

lemma Overflow_check_passes:
  "\<forall>i \<in> set xs. \<bar>sint i\<bar> < 2 ^ 31 \<Longrightarrow> Overflow_check xs = Inr ()"
proof (induction xs)
  case Nil
  then show ?case by simp
next
  case (Cons x xs)
  from Cons.prems have small: "\<bar>sint x\<bar> < 2 ^ 31" by simp
  then have "sint x \<noteq> - (2 ^ 63)" by auto
  then have "sint (std_abs x) = \<bar>sint x\<bar>" by (rule sint_std_abs)
  with small Cons show ?case by simp
qed

text \<open>
  C6. For 64-bit index arguments, the overflow check throws the overflow error as
  soon as one of the dimensions is \<open>2 ^ 31\<close> or more, and returns without error
  when every dimension is below the 31-bit limit in magnitude. The check is a pure
  function of its arguments: it has no access to the world, so it throws before
  any vendor call can be made.
\<close>

theorem overflow_check_limit:
  "((\<exists>i \<in> set (index # indices). 2 ^ 31 \<le> sint i) \<longrightarrow>
      overflow_check index indices = Inl (Runtime_error overflow_message)) \<and>
   ((\<forall>i \<in> set (index # indices). \<bar>sint i\<bar> < 2 ^ 31) \<longrightarrow>
      overflow_check index indices = Inr ())"
proof (intro conjI impI)
  assume "\<exists>i \<in> set (index # indices). 2 ^ 31 \<le> sint i"
  then obtain i where i: "i \<in> set (index # indices)" "2 ^ 31 \<le> sint i" by blast
  then have "sint i \<noteq> - (2 ^ 63)" "2 ^ 31 \<le> \<bar>sint i\<bar>" by auto
  with i(1) show "overflow_check index indices = Inl (Runtime_error overflow_message)"
    unfolding overflow_check_def by (rule Overflow_check_throws)
next
  assume "\<forall>i \<in> set (index # indices). \<bar>sint i\<bar> < 2 ^ 31"
  then show "overflow_check index indices = Inr ()"
    unfolding overflow_check_def by (rule Overflow_check_passes)
qed

theorem overflow_check_limit_witness:
  "overflow_check (2 ^ 31) [5] = Inl (Runtime_error overflow_message) \<and>
   overflow_check 7 [2 ^ 31 - 1, - 3] = Inr ()"
proof -
  have a: "\<exists>i \<in> set ((2 ^ 31 :: int64_t) # [5]). 2 ^ 31 \<le> sint i" by simp
  have b: "\<forall>i \<in> set ((7 :: int64_t) # [2 ^ 31 - 1, - 3]). \<bar>sint i\<bar> < 2 ^ 31" by simp
  from a b overflow_check_limit [of "2 ^ 31" "[5]"] overflow_check_limit [of 7 "[2 ^ 31 - 1, - 3]"]
  show ?thesis by blast
qed

text \<open>
  C10. The check is meant to throw for every index of magnitude \<open>2 ^ 31\<close> or more,
  negative ones included. At \<^verbatim>\<open>INT64_MIN\<close> it does not: the magnitude is \<open>2 ^ 63\<close>, but
  \<^verbatim>\<open>std::abs\<close> overflows and yields \<^verbatim>\<open>INT64_MIN\<close> again, which is negative, so the
  comparison with \<open>2 ^ 31\<close> fails and the check returns normally.
\<close>

theorem overflow_check_INT64_MIN:
  "2 ^ 31 \<le> \<bar>sint INT64_MIN\<bar> \<and> overflow_check INT64_MIN [] = Inr ()"
  by (simp add: overflow_check_def std_abs_INT64_MIN sint_INT64_MIN)

section \<open>The context callback on a null pointer\<close>

text \<open>
  C9. Called with a null user-data pointer, the context callback returns at once
  and leaves the world as it was: the heap of cells, the live handles and the log
  are unchanged, so there was no exchange, no call of the vendor's destroy entry
  point and no deletion.
\<close>

theorem ContextCallback_null:
  "ContextCallback 0 w = (Inr (), w) \<and>
   exchanged (trace (snd (ContextCallback 0 w))) = exchanged (trace w) \<and>
   destroyed (trace (snd (ContextCallback 0 w))) = destroyed (trace w) \<and>
   deleted (trace (snd (ContextCallback 0 w))) = deleted (trace w) \<and>
   atomics (snd (ContextCallback 0 w)) = atomics w"
  by (simp add: ContextCallback_def)

section \<open>What the primitive operations do to the world\<close>

lemma destroyed_append: "destroyed (xs @ ys) = destroyed xs @ destroyed ys"
  by (induction xs rule: destroyed.induct) auto

lemma deleted_append: "deleted (xs @ ys) = deleted xs @ deleted ys"
  by (induction xs rule: deleted.induct) auto

lemma created_append: "created (xs @ ys) = created xs + created ys"
  by (induction xs rule: created.induct) auto

lemma external_call_facts:
  "external_call ev w = (err, w1) \<Longrightarrow>
   trace w1 = trace w @ [ev] \<and> atomics w1 = atomics w \<and> handle_stream w1 = handle_stream w \<and>
   current_ctx w1 = current_ctx w \<and> cusparse_handle_mapper w1 = cusparse_handle_mapper w \<and>
   handle_count w1 = handle_count w \<and> atomic_count w1 = atomic_count w \<and>
   deleters w1 = deleters w"
  by (auto simp: external_call_def split: list.splits)

lemma handle_call_facts:
  "handle_call ev h w = (err, w1) \<Longrightarrow>
   trace w1 = trace w @ [ev] \<and> atomics w1 = atomics w \<and> handle_stream w1 = handle_stream w \<and>
   current_ctx w1 = current_ctx w \<and> cusparse_handle_mapper w1 = cusparse_handle_mapper w \<and>
   handle_count w1 = handle_count w \<and> atomic_count w1 = atomic_count w \<and>
   deleters w1 = deleters w \<and> (err = 0 \<longrightarrow> handle_stream w h \<noteq> None)"
  by (auto simp: handle_call_def split: prod.splits if_splits dest!: external_call_facts)

lemma cusparseDestroy_facts:
  "cusparseDestroy h w = (err, w1) \<Longrightarrow>
   trace w1 = trace w @ [Call_cusparseDestroy h] \<and> atomics w1 = atomics w \<and>
   current_ctx w1 = current_ctx w \<and> cusparse_handle_mapper w1 = cusparse_handle_mapper w"
  by (auto simp: cusparseDestroy_def split: prod.splits if_splits dest!: handle_call_facts)

lemma cuCtxGetCurrent_facts:
  "cuCtxGetCurrent w = (err, ctx, w1) \<Longrightarrow>
   ctx = current_ctx w \<and> current_ctx w1 = current_ctx w \<and> trace w1 = trace w @ [Call_cuCtxGetCurrent] \<and>
   atomics w1 = atomics w \<and> cusparse_handle_mapper w1 = cusparse_handle_mapper w \<and>
   handle_stream w1 = handle_stream w"
  unfolding cuCtxGetCurrent_def external_call_def
  by (cases "script w") auto

lemma cuCtxSetCurrent_facts:
  "cuCtxSetCurrent ctx w = (err, w1) \<Longrightarrow>
   (err = 0 \<longrightarrow> current_ctx w1 = ctx) \<and> trace w1 = trace w @ [Call_cuCtxSetCurrent ctx] \<and>
   atomics w1 = atomics w \<and> cusparse_handle_mapper w1 = cusparse_handle_mapper w \<and>
   handle_stream w1 = handle_stream w"
  unfolding cuCtxSetCurrent_def external_call_def
  by (cases "script w") (auto split: if_splits)

lemma cusparseCreate_facts:
  "cusparseCreate w = (err, h, w1) \<Longrightarrow>
   trace w1 = trace w @ [Call_cusparseCreate] \<and> atomics w1 = atomics w \<and>
   current_ctx w1 = current_ctx w \<and> cusparse_handle_mapper w1 = cusparse_handle_mapper w \<and>
   atomic_count w1 = atomic_count w \<and>
   (err = 0 \<longrightarrow> h \<noteq> 0 \<and> handle_stream w1 h \<noteq> None)"
  unfolding cusparseCreate_def external_call_def Let_def
  by (cases "script w") (auto split: if_splits)

lemma cusparseGetStream_facts:
  "cusparseGetStream h w = (err, s, w1) \<Longrightarrow>
   trace w1 = trace w @ [Call_cusparseGetStream h] \<and> atomics w1 = atomics w \<and>
   current_ctx w1 = current_ctx w \<and> cusparse_handle_mapper w1 = cusparse_handle_mapper w \<and>
   handle_stream w1 = handle_stream w \<and> (err = 0 \<longrightarrow> handle_stream w h = Some s)"
  unfolding cusparseGetStream_def handle_call_def external_call_def
  by (cases "script w") (auto split: if_splits option.splits)

lemma cusparseSetStream_facts:
  "cusparseSetStream h s w = (err, w1) \<Longrightarrow>
   trace w1 = trace w @ [Call_cusparseSetStream h s] \<and> atomics w1 = atomics w \<and>
   current_ctx w1 = current_ctx w \<and> cusparse_handle_mapper w1 = cusparse_handle_mapper w \<and>
   atomic_count w1 = atomic_count w \<and>
   (err = 0 \<longrightarrow> handle_stream w1 h = Some s)"
  unfolding cusparseSetStream_def handle_call_def external_call_def
  by (cases "script w") (auto split: if_splits)

lemma atomic_load_facts:
  "atomic_load c w = (Inr h, w1) \<Longrightarrow>
   atomics w c = Some h \<and> atomics w1 = atomics w \<and> trace w1 = trace w @ [Atomic_load c] \<and>
   handle_stream w1 = handle_stream w \<and> current_ctx w1 = current_ctx w \<and>
   cusparse_handle_mapper w1 = cusparse_handle_mapper w"
  by (auto simp: atomic_load_def split: option.splits)

lemma atomic_exchange_facts:
  "atomic_exchange c v w = (Inr old, w1) \<Longrightarrow>
   atomics w c = Some old \<and> atomics w1 = (atomics w)(c \<mapsto> v) \<and>
   trace w1 = trace w @ [Atomic_exchange c] \<and> handle_stream w1 = handle_stream w \<and>
   current_ctx w1 = current_ctx w \<and> cusparse_handle_mapper w1 = cusparse_handle_mapper w"
  by (auto simp: atomic_exchange_def split: option.splits)

lemma atomic_exchange_error:
  "atomic_exchange c v w = (Inl e, w1) \<Longrightarrow> w1 = w \<and> atomics w c = None \<and> e = Dangling_cell c"
  by (auto simp: atomic_exchange_def split: option.splits)

lemma delete_atomic_facts:
  "delete_atomic c w = (Inr u, w1) \<Longrightarrow>
   atomics w c \<noteq> None \<and> atomics w1 = (atomics w)(c := None) \<and>
   trace w1 = trace w @ [Atomic_delete c] \<and> handle_stream w1 = handle_stream w \<and>
   current_ctx w1 = current_ctx w \<and> cusparse_handle_mapper w1 = cusparse_handle_mapper w"
  by (auto simp: delete_atomic_def split: option.splits)

lemma delete_atomic_error:
  "delete_atomic c w = (Inl e, w1) \<Longrightarrow> w1 = w \<and> atomics w c = None \<and> e = Dangling_cell c"
  by (auto simp: delete_atomic_def split: option.splits)

lemma find_entry_erase: "find_entry k (erase_entry k m) = None"
  by (induction m) (auto simp: find_entry_def erase_entry_def)

lemma insert_entry_fresh:
  "find_entry k m = None \<Longrightarrow>
   insert_entry (k, c) m = (c, m @ [(k, c)]) \<and> find_entry k (m @ [(k, c)]) = Some c"
  by (simp add: insert_entry_def find_entry_def map_add_def)

lemmas drain_eval = fresh_world_def two_entry_world_def failing_world_def failing_world_rev_def
  cusparse_handle_dtor_def drain_entry_def atomic_exchange_def cusparseDestroy_def
  handle_call_def external_call_def delete_atomic_def CUSPARSE_STATUS_SUCCESS_def

lemmas ctx_eval = CusparseScopedContextHandler_ctor_def CusparseScopedContextHandler_dtor_def
  cuCtxGetCurrent_def cuCtxSetCurrent_def external_call_def CUDA_SUCCESS_def Let_def
  fresh_world_def busy_world_def example_queue_def

lemmas handle_eval = get_handle_def get_handle_create_def find_entry_def erase_entry_def
  insert_entry_def new_atomic_def atomic_load_def cusparseCreate_def cusparseGetStream_def
  cusparseSetStream_def handle_call_def external_call_def contextSetExtendedDeleter_def
  CUSPARSE_STATUS_SUCCESS_def get_stream_def Let_def fresh_world_def example_queue_def
  other_stream_queue_def example_handler_def

section \<open>The drain of the cache\<close>

text \<open>One visit of the drain: what it appends to the log and what it does to the cells.\<close>

lemma drain_entry_log:
  assumes "drain_entry p w = (r, w1)"
  shows "\<exists>evs. trace w1 = trace w @ evs \<and>
           (\<forall>h \<in> set (destroyed evs). h \<noteq> 0 \<and> atomics w (snd p) = Some h) \<and>
           (\<forall>c. atomics w1 c = atomics w c \<or> atomics w1 c = Some 0 \<or> atomics w1 c = None)"
  using assms
  by (auto simp: drain_entry_def CUSPARSE_STATUS_SUCCESS_def
           split: if_splits prod.splits sum.splits
           dest!: atomic_exchange_facts atomic_exchange_error cusparseDestroy_facts
                  delete_atomic_facts delete_atomic_error)

lemma drain_entries_log:
  "drain_entries es w = (r, w') \<Longrightarrow>
   \<exists>evs. trace w' = trace w @ evs \<and>
     (\<forall>h \<in> set (destroyed evs). h \<noteq> 0 \<and> (\<exists>p \<in> set es. atomics w (snd p) = Some h))"
proof (induction es arbitrary: w r w')
  case Nil
  then show ?case by simp
next
  case (Cons p es)
  obtain r1 w1 where step: "drain_entry p w = (r1, w1)" by (cases "drain_entry p w")
  from drain_entry_log [OF step] obtain evs1 where
    t1: "trace w1 = trace w @ evs1" and
    d1: "\<forall>h \<in> set (destroyed evs1). h \<noteq> 0 \<and> atomics w (snd p) = Some h" and
    a1: "\<forall>c. atomics w1 c = atomics w c \<or> atomics w1 c = Some 0 \<or> atomics w1 c = None"
    by blast
  show ?case
  proof (cases r1)
    case (Inl e)
    with Cons.prems step have "w' = w1" by simp
    with t1 d1 show ?thesis by auto
  next
    case (Inr q)
    obtain r2 w2 where rest: "drain_entries es w1 = (r2, w2)" by (cases "drain_entries es w1")
    from Cons.IH [OF rest] obtain evs2 where
      t2: "trace w2 = trace w1 @ evs2" and
      d2: "\<forall>h \<in> set (destroyed evs2). h \<noteq> 0 \<and> (\<exists>p \<in> set es. atomics w1 (snd p) = Some h)"
      by blast
    from Cons.prems step Inr rest have "w' = w2" by (auto split: sum.splits)
    have "\<forall>h \<in> set (destroyed evs2). h \<noteq> 0 \<and> (\<exists>p \<in> set es. atomics w (snd p) = Some h)"
    proof
      fix h assume "h \<in> set (destroyed evs2)"
      with d2 obtain p' where h0: "h \<noteq> 0" and p': "p' \<in> set es" "atomics w1 (snd p') = Some h"
        by blast
      from a1 p'(2) h0 have "atomics w (snd p') = Some h" by (metis option.inject option.distinct(1))
      with h0 p'(1) show "h \<noteq> 0 \<and> (\<exists>p \<in> set es. atomics w (snd p) = Some h)" by blast
    qed
    with d1 t1 t2 \<open>w' = w2\<close> show ?thesis
      by (intro exI [of _ "evs1 @ evs2"]) (auto simp: destroyed_append)
  qed
qed

lemma drain_entries_append:
  "drain_entries (es1 @ es2) w =
     (case drain_entries es1 w of
        (Inl e, w1) \<Rightarrow> (Inl e, w1)
      | (Inr ps, w1) \<Rightarrow>
          (case drain_entries es2 w1 of
             (Inl e, w2) \<Rightarrow> (Inl e, w2)
           | (Inr qs, w2) \<Rightarrow> (Inr (ps @ qs), w2)))"
  by (induction es1 arbitrary: w) (auto split: prod.splits sum.splits)

text \<open>
  C8. Whatever the cache holds and however the teardown ends, every handle that the
  teardown passes to the vendor's destroy entry point is non-null, and it is the
  content that the exchange found in the cell of one of the cache's entries.
\<close>

theorem drain_never_destroys_null:
  "cusparse_handle_dtor w = (r, w') \<Longrightarrow>
   \<exists>evs. trace w' = trace w @ evs \<and>
     (\<forall>h \<in> set (destroyed evs).
        h \<noteq> 0 \<and> (\<exists>p \<in> set (cusparse_handle_mapper w). atomics w (snd p) = Some h))"
proof -
  assume a: "cusparse_handle_dtor w = (r, w')"
  obtain r1 w1 where d: "drain_entries (cusparse_handle_mapper w) w = (r1, w1)"
    by (cases "drain_entries (cusparse_handle_mapper w) w")
  with a have "trace w' = trace w1"
    by (auto simp: cusparse_handle_dtor_def split: sum.splits)
  with drain_entries_log [OF d] show ?thesis by simp
qed

theorem drain_never_destroys_null_witness:
  "destroyed (trace (snd (cusparse_handle_dtor two_entry_world))) = [1, 2] \<and>
   (\<exists>evs. trace (snd (cusparse_handle_dtor two_entry_world)) = trace two_entry_world @ evs \<and>
      (\<forall>h \<in> set (destroyed evs).
         h \<noteq> 0 \<and>
         (\<exists>p \<in> set (cusparse_handle_mapper two_entry_world).
            atomics two_entry_world (snd p) = Some h)))"
proof -
  have d: "cusparse_handle_dtor two_entry_world =
             (fst (cusparse_handle_dtor two_entry_world), snd (cusparse_handle_dtor two_entry_world))"
    by simp
  have "destroyed (trace (snd (cusparse_handle_dtor two_entry_world))) = [1, 2]"
    by (simp add: drain_eval)
  with drain_never_destroys_null [OF d] show ?thesis by simp
qed

text \<open>
  C5, as the claim has it, fails. With two entries in the cache and a vendor library
  that refuses the first destruction, the teardown ends with the error after one
  exchange and one destroy call: the other entry's cell is never exchanged, its
  handle stays live. This holds for either order of iteration.
\<close>

theorem drain_continues_counterexample:
  "fst (cusparse_handle_dtor failing_world) = Inl (Cusparse_error ''cusparseDestroy : '' 7) \<and>
   trace (snd (cusparse_handle_dtor failing_world)) = [Atomic_exchange 1, Call_cusparseDestroy 1] \<and>
   atomics (snd (cusparse_handle_dtor failing_world)) 2 = Some 2 \<and>
   handle_stream (snd (cusparse_handle_dtor failing_world)) 2 = Some 20 \<and>
   fst (cusparse_handle_dtor failing_world_rev) = Inl (Cusparse_error ''cusparseDestroy : '' 7) \<and>
   trace (snd (cusparse_handle_dtor failing_world_rev)) = [Atomic_exchange 2, Call_cusparseDestroy 2] \<and>
   atomics (snd (cusparse_handle_dtor failing_world_rev)) 1 = Some 1 \<and>
   handle_stream (snd (cusparse_handle_dtor failing_world_rev)) 1 = Some 10"
  by (simp add: drain_eval)

text \<open>
  C5, amended. When the entries before \<open>(k, c)\<close> have been reclaimed without error and
  the destruction of the handle claimed from \<open>c\<close> fails with status \<open>err\<close>, the
  teardown ends there with the error of that destruction. The world it leaves is
  the one of the failed call: the log ends with the exchange on \<open>c\<close> and the destroy
  call, and no cell other than \<open>c\<close> has changed since the entries before were
  done, so the entries after \<open>(k, c)\<close> were not visited.
\<close>

theorem drain_stops_at_failed_destroy:
  assumes "cusparse_handle_mapper w = es1 @ (k, c) # es2"
    and "drain_entries es1 w = (Inr ps, w1)"
    and "c \<noteq> 0" and "atomics w1 c = Some h" and "h \<noteq> 0"
    and "cusparseDestroy h (snd (atomic_exchange c 0 w1)) = (err, w2)"
    and "err \<noteq> CUSPARSE_STATUS_SUCCESS"
  shows "cusparse_handle_dtor w =
           (Inl (Cusparse_error ''cusparseDestroy : '' err), w2\<lparr>cusparse_handle_mapper := []\<rparr>) \<and>
         trace w2 = trace w1 @ [Atomic_exchange c, Call_cusparseDestroy h] \<and>
         atomics w2 = (atomics w1)(c \<mapsto> 0)"
proof -
  obtain wx where x: "atomic_exchange c 0 w1 = (Inr h, wx)"
    using assms(4) by (simp add: atomic_exchange_def)
  with assms(6) have dd: "cusparseDestroy h wx = (err, w2)" by simp
  have e: "drain_entry (k, c) w1 = (Inl (Cusparse_error ''cusparseDestroy : '' err), w2)"
    using assms(3,5,7) x dd by (simp add: drain_entry_def)
  have "drain_entries (es1 @ (k, c) # es2) w =
          (Inl (Cusparse_error ''cusparseDestroy : '' err), w2)"
    using assms(2) e by (simp add: drain_entries_append)
  with assms(1) have r: "cusparse_handle_dtor w =
      (Inl (Cusparse_error ''cusparseDestroy : '' err), w2\<lparr>cusparse_handle_mapper := []\<rparr>)"
    by (simp add: cusparse_handle_dtor_def)
  from atomic_exchange_facts [OF x] cusparseDestroy_facts [OF dd]
  have "trace w2 = trace w1 @ [Atomic_exchange c, Call_cusparseDestroy h]"
    and "atomics w2 = (atomics w1)(c \<mapsto> 0)" by simp_all
  with r show ?thesis by simp
qed

theorem drain_stops_at_failed_destroy_witness:
  "fst (cusparse_handle_dtor failing_world) = Inl (Cusparse_error ''cusparseDestroy : '' 7) \<and>
   atomics (snd (cusparse_handle_dtor failing_world)) = [1 \<mapsto> 0, 2 \<mapsto> 2]"
proof -
  let ?w2 = "snd (cusparseDestroy 1 (snd (atomic_exchange 1 0 failing_world)))"
  have m: "cusparse_handle_mapper failing_world = [] @ (100, 1) # [(200, 2)]"
    by (simp add: drain_eval)
  have d: "drain_entries [] failing_world = (Inr [], failing_world)" by simp
  have a: "atomics failing_world 1 = Some 1" by (simp add: drain_eval)
  have c: "cusparseDestroy 1 (snd (atomic_exchange 1 0 failing_world)) = (7, ?w2)"
    by (simp add: prod_eq_iff drain_eval)
  have n: "(7 :: nat) \<noteq> CUSPARSE_STATUS_SUCCESS" "(1 :: nat) \<noteq> 0"
    by (simp_all add: CUSPARSE_STATUS_SUCCESS_def)
  from drain_stops_at_failed_destroy [OF m d n(2) a n(2) c n(1)]
  have "cusparse_handle_dtor failing_world =
          (Inl (Cusparse_error ''cusparseDestroy : '' 7), ?w2\<lparr>cusparse_handle_mapper := []\<rparr>)"
    and "atomics ?w2 = (atomics failing_world)(1 \<mapsto> 0)" by simp_all
  then show ?thesis by (simp add: drain_eval fun_eq_iff)
qed

section \<open>The scoped context handler and the active context\<close>

lemma ctor_facts:
  assumes "CusparseScopedContextHandler_ctor q w = (Inr sc, w1)"
  shows "placedContext sc = queue_context q \<and> original sc = current_ctx w \<and>
         needToRecover sc = (current_ctx w \<noteq> queue_context q \<and> current_ctx w \<noteq> 0) \<and>
         current_ctx w1 = queue_context q \<and>
         atomics w1 = atomics w \<and> cusparse_handle_mapper w1 = cusparse_handle_mapper w \<and>
         handle_stream w1 = handle_stream w"
proof -
  obtain err ctx wa where g: "cuCtxGetCurrent w = (err, ctx, wa)"
    by (cases "cuCtxGetCurrent w") auto
  note gf = cuCtxGetCurrent_facts [OF g]
  show ?thesis
  proof (cases "ctx = queue_context q")
    case True
    with assms g have "err = 0" and "w1 = wa"
      and "sc = \<lparr>placedContext = queue_context q, original = ctx, needToRecover = False\<rparr>"
      by (auto simp: CusparseScopedContextHandler_ctor_def CUDA_SUCCESS_def Let_def split: if_splits)
    with gf True show ?thesis by simp
  next
    case False
    obtain err2 wb where st: "cuCtxSetCurrent (queue_context q) wa = (err2, wb)"
      by (cases "cuCtxSetCurrent (queue_context q) wa")
    note sf = cuCtxSetCurrent_facts [OF st]
    from assms g st False have "err = 0" and "err2 = 0" and "w1 = wb"
      and "sc = \<lparr>placedContext = queue_context q, original = ctx, needToRecover = (ctx \<noteq> 0)\<rparr>"
      by (auto simp: CusparseScopedContextHandler_ctor_def CUDA_SUCCESS_def Let_def split: if_splits)
    with gf sf False show ?thesis by simp
  qed
qed

lemma dtor_facts:
  assumes "CusparseScopedContextHandler_dtor sc w = (Inr u, w1)"
  shows "current_ctx w1 = (if needToRecover sc then original sc else current_ctx w) \<and>
         trace w1 = trace w @ (if needToRecover sc then [Call_cuCtxSetCurrent (original sc)] else []) \<and>
         atomics w1 = atomics w \<and> cusparse_handle_mapper w1 = cusparse_handle_mapper w \<and>
         handle_stream w1 = handle_stream w"
proof (cases "needToRecover sc")
  case True
  obtain err wa where st: "cuCtxSetCurrent (original sc) w = (err, wa)"
    by (cases "cuCtxSetCurrent (original sc) w")
  note sf = cuCtxSetCurrent_facts [OF st]
  from assms st True have "err = 0" and "w1 = wa"
    by (auto simp: CusparseScopedContextHandler_dtor_def CUDA_SUCCESS_def split: if_splits)
  with sf True show ?thesis by simp
next
  case False
  with assms show ?thesis by (simp add: CusparseScopedContextHandler_dtor_def)
qed

text \<open>
  C2. A handler is constructed from the queue \<open>q\<close> in the world \<open>w\<close>; what runs in its
  scope leaves the thread's active context as the constructor set it; the handler
  is destroyed. Then the active context is the one the thread had at construction
  if that was non-empty, and the context of \<open>q\<close> otherwise.
\<close>

theorem scoped_handler_restores_context:
  assumes "CusparseScopedContextHandler_ctor q w = (Inr sc, w1)"
    and "current_ctx w2 = current_ctx w1"
    and "CusparseScopedContextHandler_dtor sc w2 = (Inr (), w3)"
  shows "current_ctx w3 = (if current_ctx w \<noteq> 0 then current_ctx w else queue_context q)"
  using ctor_facts [OF assms(1)] dtor_facts [OF assms(3)] assms(2) by auto

theorem scoped_handler_restores_context_witness:
  "current_ctx (snd (CusparseScopedContextHandler_dtor
      \<lparr>placedContext = 100, original = 7, needToRecover = True\<rparr>
      (snd (CusparseScopedContextHandler_ctor example_queue busy_world)))) = 7 \<and>
   current_ctx (snd (CusparseScopedContextHandler_dtor
      \<lparr>placedContext = 100, original = 0, needToRecover = False\<rparr>
      (snd (CusparseScopedContextHandler_ctor example_queue fresh_world)))) = 100"
proof -
  let ?sc = "\<lparr>placedContext = 100, original = 7, needToRecover = True\<rparr>"
  let ?w1 = "snd (CusparseScopedContextHandler_ctor example_queue busy_world)"
  have c: "CusparseScopedContextHandler_ctor example_queue busy_world = (Inr ?sc, ?w1)"
    by (simp add: prod_eq_iff ctx_eval)
  have d: "CusparseScopedContextHandler_dtor ?sc ?w1 =
             (Inr (), snd (CusparseScopedContextHandler_dtor ?sc ?w1))"
    by (simp add: prod_eq_iff ctx_eval)
  have b: "current_ctx busy_world = 7" by (simp add: busy_world_def fresh_world_def)
  let ?sc0 = "\<lparr>placedContext = 100, original = 0, needToRecover = False\<rparr>"
  let ?v1 = "snd (CusparseScopedContextHandler_ctor example_queue fresh_world)"
  have c0: "CusparseScopedContextHandler_ctor example_queue fresh_world = (Inr ?sc0, ?v1)"
    by (simp add: prod_eq_iff ctx_eval)
  have d0: "CusparseScopedContextHandler_dtor ?sc0 ?v1 =
             (Inr (), snd (CusparseScopedContextHandler_dtor ?sc0 ?v1))"
    by (simp add: prod_eq_iff ctx_eval)
  have b0: "current_ctx fresh_world = 0" "queue_context example_queue = 100"
    by (simp_all add: fresh_world_def example_queue_def)
  from scoped_handler_restores_context [OF c refl d] scoped_handler_restores_context [OF c0 refl d0]
    b b0 show ?thesis by simp
qed

section \<open>Handles from the cache\<close>

text \<open>The creation path: the new handle is bound to the stream and is what the cache holds.\<close>

lemma get_handle_create_facts:
  assumes "get_handle_create k s w = (Inr h, w1)"
    and "find_entry k (cusparse_handle_mapper w) = None"
  shows "handle_stream w1 h = Some s \<and> h \<noteq> 0 \<and> current_ctx w1 = current_ctx w \<and>
         (\<exists>c. c \<noteq> 0 \<and> find_entry k (cusparse_handle_mapper w1) = Some c \<and> atomics w1 c = Some h)"
  using assms
  by (auto simp: get_handle_create_def CUSPARSE_STATUS_SUCCESS_def new_atomic_def Let_def
                 insert_entry_fresh contextSetExtendedDeleter_def
           split: prod.splits if_splits
           dest!: cusparseCreate_facts cusparseSetStream_facts)

lemma get_handle_facts:
  assumes "get_handle sc q w = (Inr h, w1)"
  shows "handle_stream w1 h = Some (get_stream q) \<and> current_ctx w1 = current_ctx w \<and>
         cached (placedContext sc) h w1"
  using assms
  apply (simp add: get_handle_def Let_def split: option.splits if_splits)
    apply (drule get_handle_create_facts; simp add: cached_def)
   apply (drule get_handle_create_facts; simp add: cached_def find_entry_erase)
  apply (auto simp: CUSPARSE_STATUS_SUCCESS_def cached_def find_entry_erase
           split: prod.splits sum.splits if_splits
           dest!: atomic_load_facts cusparseGetStream_facts cusparseSetStream_facts
              dest: get_handle_create_facts)
  done

text \<open>The hit path: a cached handle is returned as it is, and nothing is created.\<close>

lemma get_handle_hit:
  assumes c: "cached (placedContext sc) h w"
    and g: "get_handle sc q w = (Inr h', w')"
  shows "h' = h \<and> created (trace w') = created (trace w) \<and>
         cusparse_handle_mapper w' = cusparse_handle_mapper w \<and> atomics w' = atomics w"
proof -
  from c obtain c0 where h0: "h \<noteq> 0" and c0: "c0 \<noteq> 0"
    and f: "find_entry (placedContext sc) (cusparse_handle_mapper w) = Some c0"
    and a: "atomics w c0 = Some h"
    by (auto simp: cached_def)
  have l: "atomic_load c0 w = (Inr h, w\<lparr>trace := trace w @ [Atomic_load c0]\<rparr>)"
    using a by (simp add: atomic_load_def)
  obtain err s wa where gs: "cusparseGetStream h (w\<lparr>trace := trace w @ [Atomic_load c0]\<rparr>) = (err, s, wa)"
    by (cases "cusparseGetStream h (w\<lparr>trace := trace w @ [Atomic_load c0]\<rparr>)") auto
  note gsf = cusparseGetStream_facts [OF gs]
  obtain err2 wb where ss: "cusparseSetStream h (get_stream q) wa = (err2, wb)"
    by (cases "cusparseSetStream h (get_stream q) wa")
  note ssf = cusparseSetStream_facts [OF ss]
  from g f c0 h0 l gs ss have "h' = h \<and> (w' = wa \<or> w' = wb)"
    by (auto simp: get_handle_def Let_def CUSPARSE_STATUS_SUCCESS_def split: if_splits)
  with gsf ssf show ?thesis by (auto simp: created_append)
qed

lemma get_handle_hit_returns:
  assumes c: "cached (placedContext sc) h w"
    and s: "script w = []" and live: "handle_stream w h \<noteq> None"
  shows "\<exists>w'. get_handle sc q w = (Inr h, w')"
proof -
  from c obtain c0 where h0: "h \<noteq> 0" and c0: "c0 \<noteq> 0"
    and f: "find_entry (placedContext sc) (cusparse_handle_mapper w) = Some c0"
    and a: "atomics w c0 = Some h"
    by (auto simp: cached_def)
  from live obtain s0 where s0: "handle_stream w h = Some s0" by auto
  show ?thesis using f c0 h0 a s s0
    by (simp add: get_handle_def Let_def atomic_load_def cusparseGetStream_def
          cusparseSetStream_def handle_call_def external_call_def CUSPARSE_STATUS_SUCCESS_def)
qed

text \<open>
  C3. Whenever \<open>get_handle\<close> returns a handle, on the cache-hit path or on the creation
  path, the handle is live and bound to the native stream of the queue, and that
  stream is what \<^verbatim>\<open>cusparseGetStream\<close> reports for it.
\<close>

theorem get_handle_returns_bound_stream:
  assumes "get_handle sc q w = (Inr h, w')"
  shows "handle_stream w' h = Some (queue_stream q) \<and>
         (\<forall>err s w''. cusparseGetStream h w' = (err, s, w'') \<longrightarrow> s = queue_stream q)"
proof -
  from get_handle_facts [OF assms] have b: "handle_stream w' h = Some (queue_stream q)"
    by (simp add: get_stream_def)
  have "s = queue_stream q" if "cusparseGetStream h w' = (err, s, w'')" for err s w''
    using that b unfolding cusparseGetStream_def handle_call_def external_call_def
    by (cases "script w'") (auto split: if_splits)
  with b show ?thesis by simp
qed

theorem get_handle_returns_bound_stream_witness:
  "handle_stream (snd (get_handle example_handler example_queue fresh_world)) 1 = Some 10 \<and>
   handle_stream (snd (get_handle example_handler other_stream_queue
      (snd (get_handle example_handler example_queue fresh_world)))) 1 = Some 20"
proof -
  let ?w1 = "snd (get_handle example_handler example_queue fresh_world)"
  have g: "get_handle example_handler example_queue fresh_world = (Inr 1, ?w1)"
    by (simp add: prod_eq_iff handle_eval)
  have g2: "get_handle example_handler other_stream_queue ?w1 =
              (Inr 1, snd (get_handle example_handler other_stream_queue ?w1))"
    by (simp add: prod_eq_iff handle_eval)
  from get_handle_returns_bound_stream [OF g] get_handle_returns_bound_stream [OF g2]
  show ?thesis by (simp add: example_queue_def other_stream_queue_def)
qed

section \<open>The cache between two calls\<close>

lemma same_cache_refl: "same_cache w w"
  by (simp add: same_cache_def)

lemma same_cache_trans: "same_cache w w1 \<Longrightarrow> same_cache w1 w2 \<Longrightarrow> same_cache w w2"
  by (auto simp: same_cache_def)

lemma same_cache_wf: "same_cache w w' \<Longrightarrow> world_wf w \<Longrightarrow> world_wf w'"
  unfolding same_cache_def world_wf_def
  by (metis le_trans)

lemma same_cache_holds: "same_cache w w' \<Longrightarrow> holds_handle k c h w \<Longrightarrow> holds_handle k c h w'"
  unfolding same_cache_def holds_handle_def by simp

lemma external_call_same: "same_cache w (snd (external_call ev w))"
  unfolding external_call_def same_cache_def by (cases "script w") auto

lemma handle_call_same: "same_cache w (snd (handle_call ev h w))"
  unfolding handle_call_def external_call_def same_cache_def by (cases "script w") auto

lemma cuCtxGetCurrent_same: "same_cache w (snd (snd (cuCtxGetCurrent w)))"
  unfolding cuCtxGetCurrent_def external_call_def same_cache_def by (cases "script w") auto

lemma cuCtxSetCurrent_same: "same_cache w (snd (cuCtxSetCurrent ctx w))"
  unfolding cuCtxSetCurrent_def external_call_def same_cache_def by (cases "script w") auto

lemma cuStreamSynchronize_same: "same_cache w (snd (cuStreamSynchronize s w))"
  unfolding cuStreamSynchronize_def by (rule external_call_same)

lemma cusparseGetStream_same: "same_cache w (snd (snd (cusparseGetStream h w)))"
  unfolding cusparseGetStream_def handle_call_def external_call_def same_cache_def
  by (cases "script w") auto

lemma cusparseSetStream_same: "same_cache w (snd (cusparseSetStream h s w))"
  unfolding cusparseSetStream_def handle_call_def external_call_def same_cache_def
  by (cases "script w") auto

lemma cusparseCreate_same: "same_cache w (snd (snd (cusparseCreate w)))"
  unfolding cusparseCreate_def external_call_def same_cache_def Let_def
  by (cases "script w") auto

lemma atomic_load_same: "same_cache w (snd (atomic_load c w))"
  unfolding atomic_load_def same_cache_def by (cases "atomics w c") auto

lemma ctor_same: "same_cache w (snd (CusparseScopedContextHandler_ctor q w))"
proof -
  obtain err ctx wa where g: "cuCtxGetCurrent w = (err, ctx, wa)"
    by (cases "cuCtxGetCurrent w") auto
  from cuCtxGetCurrent_same [of w] g have a: "same_cache w wa" by simp
  obtain err2 wb where st: "cuCtxSetCurrent (queue_context q) wa = (err2, wb)"
    by (cases "cuCtxSetCurrent (queue_context q) wa")
  from cuCtxSetCurrent_same [of wa "queue_context q"] st have "same_cache wa wb" by simp
  with a have b: "same_cache w wb" by (rule same_cache_trans)
  from g st have "snd (CusparseScopedContextHandler_ctor q w) = wa \<or>
                  snd (CusparseScopedContextHandler_ctor q w) = wb"
    by (simp add: CusparseScopedContextHandler_ctor_def Let_def)
  with a b show ?thesis by auto
qed

lemma dtor_same: "same_cache w (snd (CusparseScopedContextHandler_dtor sc w))"
proof -
  obtain err wa where st: "cuCtxSetCurrent (original sc) w = (err, wa)"
    by (cases "cuCtxSetCurrent (original sc) w")
  from cuCtxSetCurrent_same [of w "original sc"] st have a: "same_cache w wa" by simp
  from st have "snd (CusparseScopedContextHandler_dtor sc w) = wa \<or>
                snd (CusparseScopedContextHandler_dtor sc w) = w"
    by (simp add: CusparseScopedContextHandler_dtor_def)
  with a same_cache_refl [of w] show ?thesis by auto
qed

lemma wait_stream_same: "same_cache w (snd (wait_stream sc q w))"
proof -
  obtain err wa where st: "cuStreamSynchronize (get_stream q) w = (err, wa)"
    by (cases "cuStreamSynchronize (get_stream q) w")
  from cuStreamSynchronize_same [of w "get_stream q"] st have a: "same_cache w wa" by simp
  from st have "snd (wait_stream sc q w) = wa" by (simp add: wait_stream_def)
  with a show ?thesis by simp
qed

lemma cell_added_wf:
  assumes "world_wf w" and "cell_added k w w'"
  shows "world_wf w'"
proof -
  from assms(1) have a: "\<And>c. atomics w c \<noteq> None \<Longrightarrow> c \<le> atomic_count w"
    and b: "\<And>c x. atomics w c = Some x \<Longrightarrow> x \<le> handle_count w"
    and u: "\<And>c c' x. atomics w c = Some x \<Longrightarrow> atomics w c' = Some x \<Longrightarrow> x \<noteq> 0 \<Longrightarrow> c = c'"
    by (auto simp: world_wf_def)
  from assms(2) have at: "atomics w' = (atomics w)(Suc (atomic_count w) \<mapsto> Suc (handle_count w))"
    and ac: "atomic_count w' = Suc (atomic_count w)"
    and hc: "Suc (handle_count w) \<le> handle_count w'"
    by (auto simp: cell_added_def)
  have 1: "c \<le> atomic_count w'" if "atomics w' c \<noteq> None" for c
    using that a [of c] at ac by (cases "c = Suc (atomic_count w)") auto
  have 2: "x \<le> handle_count w'" if "atomics w' c = Some x" for c x
    using that b [of c x] at hc by (cases "c = Suc (atomic_count w)") auto
  have 3: "c = c'" if "atomics w' c = Some x" "atomics w' c' = Some x" "x \<noteq> 0" for c c' x
  proof (cases "c = Suc (atomic_count w)")
    case True
    with that(1) at have x: "x = Suc (handle_count w)" by simp
    show ?thesis
    proof (cases "c' = Suc (atomic_count w)")
      case False
      with that(2) at have "atomics w c' = Some x" by simp
      from b [OF this] x show ?thesis by simp
    qed (simp add: True)
  next
    case False
    with that(1) at have o: "atomics w c = Some x" by simp
    show ?thesis
    proof (cases "c' = Suc (atomic_count w)")
      case True
      with that(2) at have "x = Suc (handle_count w)" by simp
      with b [OF o] show ?thesis by simp
    next
      case False
      with that(2) at have "atomics w c' = Some x" by simp
      from u [OF o this that(3)] show ?thesis .
    qed
  qed
  from 1 2 3 show ?thesis unfolding world_wf_def by blast
qed

lemma find_entry_append_other:
  "k' \<noteq> k \<Longrightarrow> find_entry k (m @ [(k', c)]) = find_entry k m"
  by (simp add: find_entry_def map_add_def split: option.splits)

lemma find_entry_erase_other:
  "k' \<noteq> k \<Longrightarrow> find_entry k (erase_entry k' m) = find_entry k m"
  by (induction m) (auto simp: find_entry_def erase_entry_def)

lemma cell_added_holds:
  assumes "world_wf w" and "holds_handle k c h w" and "cell_added k' w w'" and "k' \<noteq> k"
  shows "holds_handle k c h w'"
proof -
  from assms(2) have "atomics w c \<noteq> None" by (simp add: holds_handle_def)
  with assms(1) have "c \<le> atomic_count w" by (simp add: world_wf_def)
  then have "c \<noteq> Suc (atomic_count w)" by simp
  with assms(2,3,4) show ?thesis
    by (simp add: holds_handle_def cell_added_def find_entry_append_other)
qed

lemma cusparseCreate_new:
  assumes "cusparseCreate w = (err, h, w1)" and "err = 0"
  shows "h = Suc (handle_count w) \<and> handle_count w1 = Suc (handle_count w)"
  using assms unfolding cusparseCreate_def external_call_def Let_def
  by (cases "script w") (auto split: if_splits)

text \<open>The creation path either fails, leaving the cache as it is, or adds one cell.\<close>

lemma get_handle_create_effect:
  assumes "find_entry k (cusparse_handle_mapper w) = None"
  shows "same_cache w (snd (get_handle_create k s w)) \<or>
         cell_added k w (snd (get_handle_create k s w))"
proof -
  obtain err h w1 where cr: "cusparseCreate w = (err, h, w1)"
    by (cases "cusparseCreate w") auto
  from cusparseCreate_same [of w] cr have s1: "same_cache w w1" by simp
  obtain err2 w2 where st: "cusparseSetStream h s w1 = (err2, w2)"
    by (cases "cusparseSetStream h s w1")
  from cusparseSetStream_same [of w1 h s] st have "same_cache w1 w2" by simp
  with s1 have s2: "same_cache w w2" by (rule same_cache_trans)
  show ?thesis
  proof (cases "err = 0 \<and> err2 = 0")
    case False
    with cr st have "snd (get_handle_create k s w) = w1 \<or> snd (get_handle_create k s w) = w2"
      by (auto simp: get_handle_create_def CUSPARSE_STATUS_SUCCESS_def)
    with s1 s2 show ?thesis by auto
  next
    case True
    with cusparseCreate_new [OF cr] have h: "h = Suc (handle_count w)"
      and hc: "handle_count w1 = Suc (handle_count w)" by simp_all
    from s2 have f: "atomics w2 = atomics w" "atomic_count w2 = atomic_count w"
      "cusparse_handle_mapper w2 = cusparse_handle_mapper w"
      "\<forall>x. handle_stream w x \<noteq> None \<longrightarrow> handle_stream w2 x \<noteq> None"
      by (simp_all add: same_cache_def)
    from \<open>same_cache w1 w2\<close> hc have hc2: "Suc (handle_count w) \<le> handle_count w2"
      by (simp add: same_cache_def)
    from True cr st assms f
    have "cell_added k w (snd (get_handle_create k s w))"
      using h hc2
      by (simp add: get_handle_create_def CUSPARSE_STATUS_SUCCESS_def new_atomic_def Let_def
            insert_entry_fresh contextSetExtendedDeleter_def cell_added_def)
    then show ?thesis by simp
  qed
qed

lemma get_handle_create_closure:
  assumes base: "P a"
    and absent: "find_entry k (cusparse_handle_mapper a) = None"
    and frame: "\<And>a b. P a \<Longrightarrow> same_cache a b \<Longrightarrow> P b"
    and add: "\<And>a b. P a \<Longrightarrow> find_entry k (cusparse_handle_mapper a) = None \<Longrightarrow>
                cell_added k a b \<Longrightarrow> P b"
  shows "P (snd (get_handle_create k s a))"
  using get_handle_create_effect [OF absent, of s] base absent frame add by blast

text \<open>
  Whatever \<open>get_handle\<close> does to the world is made of steps of three kinds: steps that
  leave the cache alone, the purge of the stale entry of its own context, and the
  addition of a cell for its own context when the cache has none.
\<close>

lemma get_handle_closure:
  assumes base: "P w"
    and frame: "\<And>a b. P a \<Longrightarrow> same_cache a b \<Longrightarrow> P b"
    and purge: "\<And>a c0. P a \<Longrightarrow> find_entry (placedContext sc) (cusparse_handle_mapper a) = Some c0 \<Longrightarrow>
                  c0 = 0 \<or> atomics a c0 = Some 0 \<Longrightarrow>
                  P (a\<lparr>cusparse_handle_mapper :=
                          erase_entry (placedContext sc) (cusparse_handle_mapper a)\<rparr>)"
    and add: "\<And>a b. P a \<Longrightarrow> find_entry (placedContext sc) (cusparse_handle_mapper a) = None \<Longrightarrow>
                cell_added (placedContext sc) a b \<Longrightarrow> P b"
  shows "P (snd (get_handle sc q w))"
proof (cases "find_entry (placedContext sc) (cusparse_handle_mapper w)")
  case None
  then have "get_handle sc q w = get_handle_create (placedContext sc) (get_stream q) w"
    by (simp add: get_handle_def Let_def)
  with get_handle_create_closure [of P w "placedContext sc", OF base None frame add]
  show ?thesis by simp
next
  case (Some c0)
  let ?k = "placedContext sc"
  show ?thesis
  proof (cases "c0 = 0")
    case True
    let ?we = "w\<lparr>cusparse_handle_mapper := erase_entry ?k (cusparse_handle_mapper w)\<rparr>"
    from purge [OF base Some] True have p: "P ?we" by simp
    have n: "find_entry ?k (cusparse_handle_mapper ?we) = None" by (simp add: find_entry_erase)
    from Some True have "get_handle sc q w = get_handle_create ?k (get_stream q) ?we"
      by (simp add: get_handle_def Let_def)
    with get_handle_create_closure [of P ?we ?k, OF p n frame add] show ?thesis by simp
  next
    case False
    show ?thesis
    proof (cases "atomics w c0")
      case None
      with Some False have "snd (get_handle sc q w) = w"
        by (simp add: get_handle_def Let_def atomic_load_def)
      with base show ?thesis by simp
    next
      case (Some hh)
      let ?wl = "w\<lparr>trace := trace w @ [Atomic_load c0]\<rparr>"
      have l: "atomic_load c0 w = (Inr hh, ?wl)" using Some by (simp add: atomic_load_def)
      have "same_cache w ?wl" by (simp add: same_cache_def)
      with base have pl: "P ?wl" by (rule frame)
      show ?thesis
      proof (cases "hh = 0")
        case True
        let ?we = "?wl\<lparr>cusparse_handle_mapper := erase_entry ?k (cusparse_handle_mapper ?wl)\<rparr>"
        have f: "find_entry ?k (cusparse_handle_mapper ?wl) = Some c0"
          using \<open>find_entry ?k (cusparse_handle_mapper w) = Some c0\<close> by simp
        have "atomics ?wl c0 = Some 0" using Some True by simp
        with purge [OF pl f] have p: "P ?we" by blast
        have n: "find_entry ?k (cusparse_handle_mapper ?we) = None" by (simp add: find_entry_erase)
        from \<open>find_entry ?k (cusparse_handle_mapper w) = Some c0\<close> False l True
        have "get_handle sc q w = get_handle_create ?k (get_stream q) ?we"
          by (simp add: get_handle_def Let_def)
        with get_handle_create_closure [of P ?we ?k, OF p n frame add] show ?thesis by simp
      next
        case False
        obtain err s' wa where gs: "cusparseGetStream hh ?wl = (err, s', wa)"
          by (cases "cusparseGetStream hh ?wl") auto
        from cusparseGetStream_same [of ?wl hh] gs have "same_cache ?wl wa" by simp
        with pl have pa: "P wa" by (rule frame)
        obtain err2 wb where ss: "cusparseSetStream hh (get_stream q) wa = (err2, wb)"
          by (cases "cusparseSetStream hh (get_stream q) wa")
        from cusparseSetStream_same [of wa hh "get_stream q"] ss have "same_cache wa wb" by simp
        with pa have pb: "P wb" by (rule frame)
        from \<open>find_entry ?k (cusparse_handle_mapper w) = Some c0\<close> \<open>c0 \<noteq> 0\<close> l False gs ss
        have "snd (get_handle sc q w) = wa \<or> snd (get_handle sc q w) = wb"
          by (simp add: get_handle_def Let_def)
        with pa pb show ?thesis by auto
      qed
    qed
  qed
qed

lemma get_handle_wf: "world_wf w \<Longrightarrow> world_wf (snd (get_handle sc q w))"
proof (rule get_handle_closure [where P = world_wf])
  fix a b assume "world_wf a" "same_cache a b"
  then show "world_wf b" using same_cache_wf by blast
next
  fix a c0 assume "world_wf a"
  then show "world_wf (a\<lparr>cusparse_handle_mapper :=
      erase_entry (placedContext sc) (cusparse_handle_mapper a)\<rparr>)"
    by (simp add: world_wf_def)
next
  fix a b assume "world_wf a" "cell_added (placedContext sc) a b"
  then show "world_wf b" by (rule cell_added_wf)
qed

lemma get_handle_keeps:
  assumes "world_wf w" and "holds_handle k c h w"
  shows "holds_handle k c h (snd (get_handle sc q w))"
proof -
  let ?P = "\<lambda>a. world_wf a \<and> holds_handle k c h a"
  have "?P (snd (get_handle sc q w))"
  proof (rule get_handle_closure [where P = ?P])
    show "?P w" using assms by simp
  next
    fix a b assume "?P a" "same_cache a b"
    then show "?P b" using same_cache_wf same_cache_holds by blast
  next
    fix a c0
    assume p: "?P a" and f: "find_entry (placedContext sc) (cusparse_handle_mapper a) = Some c0"
      and s: "c0 = 0 \<or> atomics a c0 = Some 0"
    have "placedContext sc \<noteq> k"
    proof
      assume "placedContext sc = k"
      with p f have "c0 = c" "c \<noteq> 0" "atomics a c = Some h" "h \<noteq> 0"
        by (auto simp: holds_handle_def)
      with s show False by auto
    qed
    with p show "?P (a\<lparr>cusparse_handle_mapper :=
        erase_entry (placedContext sc) (cusparse_handle_mapper a)\<rparr>)"
      by (simp add: world_wf_def holds_handle_def find_entry_erase_other)
  next
    fix a b
    assume p: "?P a" and n: "find_entry (placedContext sc) (cusparse_handle_mapper a) = None"
      and ad: "cell_added (placedContext sc) a b"
    from p n have "placedContext sc \<noteq> k" by (auto simp: holds_handle_def)
    with p ad show "?P b" using cell_added_wf cell_added_holds by blast
  qed
  then show ?thesis by simp
qed

lemma cusparseDestroy_effect:
  "cusparseDestroy hh w = (err, w') \<Longrightarrow>
   atomics w' = atomics w \<and> atomic_count w' = atomic_count w \<and> handle_count w' = handle_count w \<and>
   cusparse_handle_mapper w' = cusparse_handle_mapper w \<and>
   (\<forall>x. x \<noteq> hh \<longrightarrow> handle_stream w' x = handle_stream w x)"
  unfolding cusparseDestroy_def handle_call_def external_call_def
  by (cases "script w") (auto split: if_splits)

lemma world_wf_exchange:
  assumes "world_wf w" and "atomics w c \<noteq> None"
    and "atomics w' = (atomics w)(c \<mapsto> 0)" and "atomic_count w' = atomic_count w"
    and "handle_count w' = handle_count w"
  shows "world_wf w'"
  using assms unfolding world_wf_def by (auto split: if_splits)

lemma world_wf_delete:
  assumes "world_wf w"
    and "atomics w' = (atomics w)(c := None)" and "atomic_count w' = atomic_count w"
    and "handle_count w' = handle_count w"
  shows "world_wf w'"
  using assms unfolding world_wf_def by (auto split: if_splits)

lemma world_wf_cong:
  assumes "world_wf w"
    and "atomics w' = atomics w" and "atomic_count w' = atomic_count w"
    and "handle_count w' = handle_count w"
  shows "world_wf w'"
  using assms unfolding world_wf_def by simp

text \<open>
  The context callback on a cell \<open>c'\<close>: the world it leaves, whatever the outcome, and
  the handle it destroyed, if any, which is what the cell held.
\<close>

lemma ContextCallback_effect:
  assumes "snd (ContextCallback c' w) = w'"
  shows "w' = w \<or>
         (\<exists>hh. atomics w c' = Some hh \<and> atomic_count w' = atomic_count w \<and>
            handle_count w' = handle_count w \<and>
            cusparse_handle_mapper w' = cusparse_handle_mapper w \<and>
            (hh \<noteq> 0 \<longrightarrow> atomics w' = (atomics w)(c' \<mapsto> 0) \<and>
               (\<forall>x. x \<noteq> hh \<longrightarrow> handle_stream w' x = handle_stream w x)) \<and>
            (hh = 0 \<longrightarrow> atomics w' = (atomics w)(c' := None) \<and>
               handle_stream w' = handle_stream w))"
proof (cases "c' = 0 \<or> atomics w c' = None")
  case True
  with assms have "w' = w" by (auto simp: ContextCallback_def atomic_exchange_def)
  then show ?thesis by simp
next
  case False
  then obtain hh where c: "c' \<noteq> 0" and a: "atomics w c' = Some hh" by auto
  let ?w1 = "w\<lparr>atomics := (atomics w)(c' \<mapsto> 0), trace := trace w @ [Atomic_exchange c']\<rparr>"
  have x: "atomic_exchange c' 0 w = (Inr hh, ?w1)" using a by (simp add: atomic_exchange_def)
  show ?thesis
  proof (cases "hh = 0")
    case True
    with assms c x have "w' = snd (delete_atomic c' ?w1)" by (simp add: ContextCallback_def)
    then have "w' = ?w1\<lparr>atomics := (atomics ?w1)(c' := None), trace := trace ?w1 @ [Atomic_delete c']\<rparr>"
      by (simp add: delete_atomic_def)
    with a True show ?thesis by auto
  next
    case False
    obtain err w2 where d: "cusparseDestroy hh ?w1 = (err, w2)" by (cases "cusparseDestroy hh ?w1")
    with assms c x False have "w' = w2" by (auto simp: ContextCallback_def)
    with cusparseDestroy_effect [OF d] a False show ?thesis by auto
  qed
qed

lemma ContextCallback_wf:
  assumes "world_wf w"
  shows "world_wf (snd (ContextCallback c' w))"
proof -
  from ContextCallback_effect [OF refl, of c' w]
  consider "snd (ContextCallback c' w) = w"
    | hh where "atomics w c' = Some hh" "hh \<noteq> 0"
        "atomics (snd (ContextCallback c' w)) = (atomics w)(c' \<mapsto> 0)"
        "atomic_count (snd (ContextCallback c' w)) = atomic_count w"
        "handle_count (snd (ContextCallback c' w)) = handle_count w"
    | "atomics (snd (ContextCallback c' w)) = (atomics w)(c' := None)"
        "atomic_count (snd (ContextCallback c' w)) = atomic_count w"
        "handle_count (snd (ContextCallback c' w)) = handle_count w"
    by blast
  then show ?thesis
  proof cases
    case 1
    with assms show ?thesis by simp
  next
    case (2 hh)
    from 2(1) have "atomics w c' \<noteq> None" by simp
    from world_wf_exchange [OF assms this 2(3,4,5)] show ?thesis .
  next
    case 3
    from world_wf_delete [OF assms 3] show ?thesis .
  qed
qed

lemma ContextCallback_keeps:
  assumes wf: "world_wf w" and hd: "holds_handle k c h w" and other: "c' \<noteq> c"
  shows "holds_handle k c h (snd (ContextCallback c' w))"
proof -
  let ?w' = "snd (ContextCallback c' w)"
  from hd have a: "atomics w c = Some h" and h0: "h \<noteq> 0" by (simp_all add: holds_handle_def)
  from ContextCallback_effect [OF refl, of c' w]
  show ?thesis
  proof (elim disjE exE conjE)
    assume "?w' = w"
    with hd show ?thesis by simp
  next
    fix hh
    assume b: "atomics w c' = Some hh"
      and m: "cusparse_handle_mapper ?w' = cusparse_handle_mapper w"
      and n: "hh \<noteq> 0 \<longrightarrow> atomics ?w' = (atomics w)(c' \<mapsto> 0) \<and>
                (\<forall>x. x \<noteq> hh \<longrightarrow> handle_stream ?w' x = handle_stream w x)"
      and z: "hh = 0 \<longrightarrow> atomics ?w' = (atomics w)(c' := None) \<and> handle_stream ?w' = handle_stream w"
    have ne: "hh \<noteq> h"
    proof
      assume "hh = h"
      with wf a b h0 have "c = c'" unfolding world_wf_def by blast
      with other show False by simp
    qed
    show ?thesis
    proof (cases "hh = 0")
      case True
      with z hd m other show ?thesis by (simp add: holds_handle_def)
    next
      case False
      with n ne hd m other show ?thesis by (simp add: holds_handle_def)
    qed
  qed
qed

lemma run_op_wf: "world_wf w \<Longrightarrow> world_wf (run_op op w)"
proof (cases op)
  case (Op_construct q)
  assume "world_wf w"
  with ctor_same [of w q] Op_construct show ?thesis using same_cache_wf by auto
next
  case (Op_destroy sc)
  assume "world_wf w"
  with dtor_same [of w sc] Op_destroy show ?thesis using same_cache_wf by auto
next
  case (Op_get_handle sc q)
  assume "world_wf w"
  with Op_get_handle show ?thesis by (simp add: get_handle_wf)
next
  case (Op_wait_stream sc q)
  assume "world_wf w"
  with wait_stream_same [of w sc q] Op_wait_stream show ?thesis using same_cache_wf by auto
next
  case (Op_ContextCallback c')
  assume "world_wf w"
  with Op_ContextCallback show ?thesis by (simp add: ContextCallback_wf)
qed

lemma run_op_keeps:
  assumes "world_wf w" and "holds_handle k c h w" and "op \<noteq> Op_ContextCallback c"
  shows "holds_handle k c h (run_op op w)"
proof (cases op)
  case (Op_construct q)
  with ctor_same [of w q] assms(2) show ?thesis using same_cache_holds by auto
next
  case (Op_destroy sc)
  with dtor_same [of w sc] assms(2) show ?thesis using same_cache_holds by auto
next
  case (Op_get_handle sc q)
  with assms(1,2) show ?thesis by (simp add: get_handle_keeps)
next
  case (Op_wait_stream sc q)
  with wait_stream_same [of w sc q] assms(2) show ?thesis using same_cache_holds by auto
next
  case (Op_ContextCallback c')
  with assms show ?thesis by (simp add: ContextCallback_keeps)
qed

lemma run_ops_keeps:
  "world_wf w \<Longrightarrow> holds_handle k c h w \<Longrightarrow> Op_ContextCallback c \<notin> set ops \<Longrightarrow>
   world_wf (run_ops ops w) \<and> holds_handle k c h (run_ops ops w)"
proof (induction ops arbitrary: w)
  case Nil
  then show ?case by simp
next
  case (Cons op ops)
  from Cons.prems have "op \<noteq> Op_ContextCallback c" and r: "Op_ContextCallback c \<notin> set ops" by auto
  with Cons.prems have "world_wf (run_op op w)" "holds_handle k c h (run_op op w)"
    by (simp_all add: run_op_wf run_op_keeps)
  from Cons.IH [OF this r] show ?case by simp
qed

lemma world_wf_fresh: "world_wf fresh_world"
  by (simp add: world_wf_def fresh_world_def)

lemmas ops_eval = example_ops_def other_context_queue_def other_context_handler_def
  ContextCallback_def atomic_exchange_def delete_atomic_def cusparseDestroy_def wait_stream_def
  cuStreamSynchronize_def CusparseScopedContextHandler_ctor_def
  CusparseScopedContextHandler_dtor_def cuCtxGetCurrent_def cuCtxSetCurrent_def CUDA_SUCCESS_def

text \<open>
  C4. \<open>get_handle\<close> has returned \<open>h\<close> for a handler of some context, in a world whose
  allocators are sound. The thread then goes through any sequence of operations:
  scoped handlers are constructed and destroyed, \<open>get_handle\<close> is called for any
  handler and queue, of this context or of another, streams are waited on, and
  the runtime may run the context callback on any cell but the one the cache holds
  for this context (other contexts are destroyed, this one is not). The teardown
  of the thread's cache is not among the operations (the thread has not exited).
  After that, a call of \<open>get_handle\<close> for a handler of the same context, with any
  queue, returns the very same \<open>h\<close> whenever it returns, creates no handle and
  leaves cache and cells as they are; and it does return \<open>h\<close> when the vendor
  library reports no failure.
\<close>

theorem get_handle_repeated_same_handle:
  assumes "world_wf w"
    and "get_handle sc q w = (Inr h, w1)"
    and "\<forall>c. find_entry (placedContext sc) (cusparse_handle_mapper w1) = Some c \<longrightarrow>
           Op_ContextCallback c \<notin> set ops"
    and "placedContext sc' = placedContext sc"
  shows "(\<forall>h' w3. get_handle sc' q' (run_ops ops w1) = (Inr h', w3) \<longrightarrow>
            h' = h \<and> created (trace w3) = created (trace (run_ops ops w1)) \<and>
            cusparse_handle_mapper w3 = cusparse_handle_mapper (run_ops ops w1) \<and>
            atomics w3 = atomics (run_ops ops w1)) \<and>
         (script (run_ops ops w1) = [] \<longrightarrow>
            (\<exists>w3. get_handle sc' q' (run_ops ops w1) = (Inr h, w3)))"
proof -
  let ?k = "placedContext sc"
  let ?w2 = "run_ops ops w1"
  from get_handle_wf [OF assms(1), of sc q] assms(2) have wf1: "world_wf w1" by simp
  from get_handle_facts [OF assms(2)] obtain c where
    hd: "holds_handle ?k c h w1"
    by (auto simp: cached_def holds_handle_def)
  then have "find_entry ?k (cusparse_handle_mapper w1) = Some c" by (simp add: holds_handle_def)
  with assms(3) have "Op_ContextCallback c \<notin> set ops" by simp
  from run_ops_keeps [OF wf1 hd this] have hd2: "holds_handle ?k c h ?w2" by simp
  with assms(4) have c: "cached (placedContext sc') h ?w2"
    by (auto simp: cached_def holds_handle_def)
  from hd2 have live: "handle_stream ?w2 h \<noteq> None" by (simp add: holds_handle_def)
  have a: "\<forall>h' w3. get_handle sc' q' ?w2 = (Inr h', w3) \<longrightarrow>
            h' = h \<and> created (trace w3) = created (trace ?w2) \<and>
            cusparse_handle_mapper w3 = cusparse_handle_mapper ?w2 \<and> atomics w3 = atomics ?w2"
    using get_handle_hit [OF c] by blast
  have b: "script ?w2 = [] \<longrightarrow> (\<exists>w3. get_handle sc' q' ?w2 = (Inr h, w3))"
    using get_handle_hit_returns [OF c _ live] by simp
  from a b show ?thesis by (rule conjI)
qed

theorem get_handle_repeated_same_handle_witness:
  "fst (get_handle example_handler example_queue fresh_world) = Inr 1 \<and>
   fst (get_handle example_handler other_stream_queue
          (run_ops example_ops (snd (get_handle example_handler example_queue fresh_world)))) = Inr 1"
proof -
  let ?w1 = "snd (get_handle example_handler example_queue fresh_world)"
  have g1: "fst (get_handle example_handler example_queue fresh_world) = Inr 1"
    by (simp add: handle_eval)
  then have g: "get_handle example_handler example_queue fresh_world = (Inr 1, ?w1)"
    by (simp add: prod_eq_iff)
  have m: "cusparse_handle_mapper ?w1 = [(100, 1)]" by (simp add: handle_eval)
  have n: "\<forall>c. find_entry (placedContext example_handler) (cusparse_handle_mapper ?w1) = Some c \<longrightarrow>
             Op_ContextCallback c \<notin> set example_ops"
    unfolding m by (simp add: find_entry_def example_handler_def example_ops_def)
  have s: "script (run_ops example_ops ?w1) = []"
    by (simp add: handle_eval ops_eval)
  from get_handle_repeated_same_handle [OF world_wf_fresh g n refl, of other_stream_queue] s
  obtain w3 where
    "get_handle example_handler other_stream_queue (run_ops example_ops ?w1) = (Inr 1, w3)"
    by blast
  then have "fst (get_handle example_handler other_stream_queue (run_ops example_ops ?w1)) = Inr 1"
    by simp
  with g1 show ?thesis by (rule conjI)
qed

section \<open>The host task\<close>

lemmas task_eval = onemkl_cusparse_host_task_def host_task_internal_def with_handle_spec_def
  wait_stream_def cuStreamSynchronize_def unwind_handler_def example_task_def noop_task_def
  noop_fn_def

text \<open>
  C7, as the claim has it, fails: the factory does not obtain a handle and does not
  pass one to the function. With a function that does nothing, on a fresh thread,
  the task succeeds after three external calls, none of them for a handle, and the
  cache is still empty; the factory of the specification's wording creates a
  handle on the same input.
\<close>

theorem host_task_obtains_handle_counterexample:
  "fst (onemkl_cusparse_host_task example_queue noop_task fresh_world) = Inr () \<and>
   trace (snd (onemkl_cusparse_host_task example_queue noop_task fresh_world)) =
     [Call_cuCtxGetCurrent, Call_cuCtxSetCurrent 100, Call_cuStreamSynchronize 10] \<and>
   cusparse_handle_mapper (snd (onemkl_cusparse_host_task example_queue noop_task fresh_world)) = [] \<and>
   handle_count (snd (onemkl_cusparse_host_task example_queue noop_task fresh_world)) = 0 \<and>
   trace (snd (with_handle_spec example_queue noop_fn fresh_world)) =
     [Call_cuCtxGetCurrent, Call_cuCtxSetCurrent 100, Call_cusparseCreate,
      Call_cusparseSetStream 1 10, Atomic_new 1, Call_contextSetExtendedDeleter 100 1,
      Call_cuStreamSynchronize 10]"
  by (simp add: task_eval ctx_eval handle_eval)

text \<open>
  C7, amended. When the host task ends without an exception it has, in this order,
  constructed a scoped context handler from the queue, called the function with
  that handler alone, synchronized the queue's stream after the function returned,
  and destroyed the handler after that. (The function obtains a handle from the
  handler itself.)
\<close>

theorem host_task_order:
  assumes "onemkl_cusparse_host_task q f w = (Inr (), w')"
  shows "\<exists>sc w1 w2 w3.
           CusparseScopedContextHandler_ctor q w = (Inr sc, w1) \<and>
           f sc w1 = (Inr (), w2) \<and>
           wait_stream sc q w2 = (Inr (), w3) \<and>
           trace w3 = trace w2 @ [Call_cuStreamSynchronize (queue_stream q)] \<and>
           CusparseScopedContextHandler_dtor sc w3 = (Inr (), w')"
proof -
  have nu: "fst (unwind_handler sc e w0) \<noteq> Inr ()" for sc e w0
    by (auto simp: unwind_handler_def split: prod.splits sum.splits)
  obtain r1 w1 where c: "CusparseScopedContextHandler_ctor q w = (r1, w1)"
    by (cases "CusparseScopedContextHandler_ctor q w")
  with assms obtain sc where r1: "r1 = Inr sc"
    by (cases r1) (auto simp: onemkl_cusparse_host_task_def host_task_internal_def)
  obtain r2 w2 where f: "f sc w1 = (r2, w2)" by (cases "f sc w1")
  have r2: "r2 = Inr ()"
  proof (cases r2)
    case (Inl e)
    with assms c r1 f have "unwind_handler sc e w2 = (Inr (), w')"
      by (simp add: onemkl_cusparse_host_task_def host_task_internal_def)
    with nu [of sc e w2] show ?thesis by simp
  qed simp
  obtain r3 w3 where ws: "wait_stream sc q w2 = (r3, w3)" by (cases "wait_stream sc q w2")
  have r3: "r3 = Inr ()"
  proof (cases r3)
    case (Inl e)
    with assms c r1 f r2 ws have "unwind_handler sc e w3 = (Inr (), w')"
      by (simp add: onemkl_cusparse_host_task_def host_task_internal_def)
    with nu [of sc e w3] show ?thesis by simp
  qed simp
  from assms c r1 f r2 ws r3 have d: "CusparseScopedContextHandler_dtor sc w3 = (Inr (), w')"
    by (simp add: onemkl_cusparse_host_task_def host_task_internal_def)
  have t: "trace w3 = trace w2 @ [Call_cuStreamSynchronize (queue_stream q)]"
    using ws unfolding wait_stream_def cuStreamSynchronize_def external_call_def get_stream_def
    by (cases "script w2") (auto split: if_splits)
  from c r1 f r2 ws r3 t d show ?thesis by blast
qed

theorem host_task_order_witness:
  "trace (snd (onemkl_cusparse_host_task example_queue example_task busy_world)) =
     [Call_cuCtxGetCurrent, Call_cuCtxSetCurrent 100, Call_cusparseCreate,
      Call_cusparseSetStream 1 10, Atomic_new 1, Call_contextSetExtendedDeleter 100 1,
      Call_cuStreamSynchronize 10, Call_cuCtxSetCurrent 7] \<and>
   (\<exists>sc w1 w2 w3.
      CusparseScopedContextHandler_ctor example_queue busy_world = (Inr sc, w1) \<and>
      example_task sc w1 = (Inr (), w2) \<and>
      wait_stream sc example_queue w2 = (Inr (), w3) \<and>
      trace w3 = trace w2 @ [Call_cuStreamSynchronize (queue_stream example_queue)] \<and>
      CusparseScopedContextHandler_dtor sc w3 =
        (Inr (), snd (onemkl_cusparse_host_task example_queue example_task busy_world)))"
proof -
  have r: "onemkl_cusparse_host_task example_queue example_task busy_world =
             (Inr (), snd (onemkl_cusparse_host_task example_queue example_task busy_world))"
    by (simp add: prod_eq_iff task_eval ctx_eval handle_eval)
  have t: "trace (snd (onemkl_cusparse_host_task example_queue example_task busy_world)) =
     [Call_cuCtxGetCurrent, Call_cuCtxSetCurrent 100, Call_cusparseCreate,
      Call_cusparseSetStream 1 10, Atomic_new 1, Call_contextSetExtendedDeleter 100 1,
      Call_cuStreamSynchronize 10, Call_cuCtxSetCurrent 7]"
    by (simp add: task_eval ctx_eval handle_eval)
  from host_task_order [OF r] t show ?thesis by (rule_tac conjI)
qed

section \<open>The race between the teardown and the context callback\<close>

text \<open>
  The two parties do the same to a cell, and the sequential code of each is its two
  actions one after the other.
\<close>

lemma callback_step_eq: "c \<noteq> 0 \<Longrightarrow> callback_step c p w = drain_visit_step c p w"
  by (cases p) auto

lemma ContextCallback_steps:
  "ContextCallback ptr w =
     (case callback_step ptr Start w of
        (p1, w1) \<Rightarrow> (case callback_step ptr p1 w1 of (p2, w2) \<Rightarrow> (outcome p2, w2)))"
  by (auto simp: ContextCallback_def split: prod.splits sum.splits if_splits)

lemma drain_entry_steps:
  "drain_entry (k, second) w =
     (case drain_visit_step second Start w of
        (p1, w1) \<Rightarrow>
          (case drain_visit_step second p1 w1 of
             (p2, w2) \<Rightarrow> (map_sum id (\<lambda>u. (k, 0)) (outcome p2), w2)))"
  by (auto simp: drain_entry_def split: prod.splits sum.splits if_splits)

lemma step_not_started:
  assumes "c \<noteq> 0" and "atomics w c = Some v"
  shows "\<exists>w'. drain_visit_step c Start w = (Exchanged v, w') \<and> atomics w' c = Some 0 \<and>
           destroyed (trace w') = destroyed (trace w) \<and> deleted (trace w') = deleted (trace w)"
  using assms by (simp add: atomic_exchange_def destroyed_append deleted_append)

lemma step_holding:
  assumes "v \<noteq> 0"
  shows "\<exists>p' w'. drain_visit_step c (Exchanged v) w = (p', w') \<and>
           (p' = Done \<or> (\<exists>n e. p' = Threw (Cusparse_error n e))) \<and>
           atomics w' = atomics w \<and>
           destroyed (trace w') = destroyed (trace w) @ [v] \<and>
           deleted (trace w') = deleted (trace w)"
proof -
  obtain err w1 where d: "cusparseDestroy v w = (err, w1)" by (cases "cusparseDestroy v w")
  from cusparseDestroy_facts [OF d] d assms show ?thesis
    by (auto simp: destroyed_append deleted_append)
qed

lemma step_saw_null:
  assumes "atomics w c = Some v"
  shows "\<exists>w'. drain_visit_step c (Exchanged 0) w = (Done, w') \<and> atomics w' c = None \<and>
           destroyed (trace w') = destroyed (trace w) \<and>
           deleted (trace w') = deleted (trace w) @ [c]"
  using assms by (simp add: delete_atomic_def destroyed_append deleted_append)

lemma phase_of_Threw:
  "phase_of h (Threw e) = (case e of Cusparse_error n x \<Rightarrow> Destroy_threw | _ \<Rightarrow> Unreachable)"
  by (cases e) auto

text \<open>Every action of either party keeps the table of \<open>expected\<close>.\<close>

lemma drain_step_inv:
  assumes c: "c \<noteq> 0" and h: "h \<noteq> 0" and inv: "race_inv c h ds xs s"
  shows "race_inv c h ds xs (conc_step c Cache_drain s)"
proof (cases "drain_pc s")
  case Start
  with inv h obtain v where cell: "atomics (shared s) c = Some v" and v: "v = h \<or> v = 0"
    by (cases "callback_pc s")
       (auto simp: race_inv_def phase_of_Threw split: if_splits error.splits)
  from step_not_started [OF c cell] obtain w' where
    st: "drain_visit_step c Start (shared s) = (Exchanged v, w')" and
    f: "atomics w' c = Some 0" "destroyed (trace w') = destroyed (trace (shared s))"
       "deleted (trace w') = deleted (trace (shared s))" by blast
  from inv h Start cell v st f show ?thesis
    by (cases "callback_pc s")
       (auto simp: race_inv_def phase_of_Threw split: if_splits error.splits)
next
  case (Exchanged v)
  show ?thesis
  proof (cases "v = 0")
    case True
    with inv h Exchanged obtain u where cell: "atomics (shared s) c = Some u"
      by (cases "callback_pc s")
         (auto simp: race_inv_def phase_of_Threw split: if_splits error.splits)
    from step_saw_null [OF cell] obtain w' where
      st: "drain_visit_step c (Exchanged 0) (shared s) = (Done, w')" and
      f: "atomics w' c = None" "destroyed (trace w') = destroyed (trace (shared s))"
         "deleted (trace w') = deleted (trace (shared s)) @ [c]" by blast
    from inv h Exchanged True cell st f show ?thesis
      by (cases "callback_pc s")
         (auto simp: race_inv_def phase_of_Threw split: if_splits error.splits)
  next
    case False
    from step_holding [OF False, of c "shared s"] obtain p' w' where
      st: "drain_visit_step c (Exchanged v) (shared s) = (p', w')" and
      p: "p' = Done \<or> (\<exists>n e. p' = Threw (Cusparse_error n e))" and
      f: "atomics w' = atomics (shared s)"
         "destroyed (trace w') = destroyed (trace (shared s)) @ [v]"
         "deleted (trace w') = deleted (trace (shared s))" by blast
    from inv h Exchanged False st p f show ?thesis
      by (cases "callback_pc s")
         (auto simp: race_inv_def phase_of_Threw split: if_splits error.splits)
  qed
next
  case Done
  with inv show ?thesis by (auto simp: race_inv_def split: option.splits)
next
  case (Threw e)
  with inv show ?thesis by (auto simp: race_inv_def split: option.splits)
qed

lemma expected_sym: "expected h p q = expected h q p"
  by (cases p; cases q) simp_all

lemma race_inv_swap:
  "race_inv c h ds xs \<lparr>drain_pc = a, callback_pc = b, shared = w\<rparr> =
   race_inv c h ds xs \<lparr>drain_pc = b, callback_pc = a, shared = w\<rparr>"
  by (auto simp: race_inv_def expected_sym [of h "phase_of h a"] split: option.splits)

lemma callback_step_inv:
  assumes c: "c \<noteq> 0" and h: "h \<noteq> 0" and inv: "race_inv c h ds xs s"
  shows "race_inv c h ds xs (conc_step c Context_callback s)"
proof -
  obtain a b w where s: "s = \<lparr>drain_pc = a, callback_pc = b, shared = w\<rparr>" by (cases s) auto
  obtain b' w' where st: "drain_visit_step c b w = (b', w')" by (cases "drain_visit_step c b w")
  from inv s have "race_inv c h ds xs \<lparr>drain_pc = b, callback_pc = a, shared = w\<rparr>"
    by (simp add: race_inv_swap)
  from drain_step_inv [OF c h this] st
  have "race_inv c h ds xs \<lparr>drain_pc = b', callback_pc = a, shared = w'\<rparr>" by simp
  then have "race_inv c h ds xs \<lparr>drain_pc = a, callback_pc = b', shared = w'\<rparr>"
    by (simp add: race_inv_swap)
  with s st c show ?thesis by (simp add: callback_step_eq)
qed

lemma run_schedule_inv:
  "c \<noteq> 0 \<Longrightarrow> h \<noteq> 0 \<Longrightarrow> race_inv c h ds xs s \<Longrightarrow>
   race_inv c h ds xs (run_schedule c sched s)"
proof (induction sched arbitrary: s)
  case Nil
  then show ?case by simp
next
  case (Cons p ps)
  have "race_inv c h ds xs (conc_step c p s)"
  proof (cases p)
    case Cache_drain
    with Cons.prems show ?thesis using drain_step_inv by blast
  next
    case Context_callback
    with Cons.prems show ?thesis using callback_step_inv by blast
  qed
  with Cons show ?case by simp
qed

lemma race_inv_init:
  "atomics w c = Some h \<Longrightarrow>
   race_inv c h (destroyed (trace w)) (deleted (trace w)) (conc_init w)"
  by (simp add: race_inv_def conc_init_def)

lemma race_inv_facts:
  assumes h: "h \<noteq> 0" and inv: "race_inv c h ds xs s"
  shows "destroyed (trace (shared s)) = ds \<or> destroyed (trace (shared s)) = ds @ [h]"
    and "ended (drain_pc s) \<and> ended (callback_pc s) \<longrightarrow>
           destroyed (trace (shared s)) = ds @ [h] \<and> deleted (trace (shared s)) = xs @ [c] \<and>
           atomics (shared s) c = None"
    and "ended (drain_pc s) \<and> callback_pc s = Start \<or> drain_pc s = Start \<and> ended (callback_pc s) \<longrightarrow>
           destroyed (trace (shared s)) = ds @ [h] \<and> deleted (trace (shared s)) = xs \<and>
           atomics (shared s) c = Some 0"
    and "\<forall>x. drain_pc s \<noteq> Threw (Dangling_cell x) \<and> callback_pc s \<noteq> Threw (Dangling_cell x)"
    and "\<not> (drain_pc s = Exchanged h \<and> callback_pc s = Exchanged h)"
    and "drain_pc s = Exchanged 0 \<or> callback_pc s = Exchanged 0 \<longrightarrow> atomics (shared s) c = Some 0"
  using assms
  by (cases "drain_pc s"; cases "callback_pc s";
      auto simp: race_inv_def phase_of_Threw split: if_splits error.splits)+

text \<open>
  C1. A cell \<open>c\<close> holds the non-null handle \<open>h\<close>; the visit of the cache's teardown to
  \<open>c\<close> and the context callback on \<open>c\<close> run one atomic action at a time, in the order
  of an arbitrary schedule. At every moment the vendor's destroy entry point has
  been called at most once since the start, and only on \<open>h\<close>. Once both parties have
  ended it has been called exactly once and the cell has been deleted exactly
  once; when one party has ended and the other never started, it has been called
  exactly once and the cell is still allocated, empty. No party ever touches a
  deleted cell, the two never both obtain \<open>h\<close> from the exchange, and a party that
  has observed null deletes the cell and destroys nothing.
\<close>

theorem destroy_exactly_once:
  assumes "atomics w c = Some h" and "h \<noteq> 0" and "c \<noteq> 0"
    and "s = run_schedule c sched (conc_init w)"
  shows "(destroyed (trace (shared s)) = destroyed (trace w) \<or>
          destroyed (trace (shared s)) = destroyed (trace w) @ [h]) \<and>
         (ended (drain_pc s) \<and> ended (callback_pc s) \<longrightarrow>
            destroyed (trace (shared s)) = destroyed (trace w) @ [h] \<and>
            deleted (trace (shared s)) = deleted (trace w) @ [c] \<and>
            atomics (shared s) c = None) \<and>
         (ended (drain_pc s) \<and> callback_pc s = Start \<or>
          drain_pc s = Start \<and> ended (callback_pc s) \<longrightarrow>
            destroyed (trace (shared s)) = destroyed (trace w) @ [h] \<and>
            deleted (trace (shared s)) = deleted (trace w) \<and>
            atomics (shared s) c = Some 0) \<and>
         (\<forall>x. drain_pc s \<noteq> Threw (Dangling_cell x) \<and> callback_pc s \<noteq> Threw (Dangling_cell x)) \<and>
         \<not> (drain_pc s = Exchanged h \<and> callback_pc s = Exchanged h) \<and>
         (drain_pc s = Exchanged 0 \<longrightarrow>
            destroyed (trace (shared (conc_step c Cache_drain s))) = destroyed (trace (shared s)) \<and>
            deleted (trace (shared (conc_step c Cache_drain s))) = deleted (trace (shared s)) @ [c]) \<and>
         (callback_pc s = Exchanged 0 \<longrightarrow>
            destroyed (trace (shared (conc_step c Context_callback s))) = destroyed (trace (shared s)) \<and>
            deleted (trace (shared (conc_step c Context_callback s))) = deleted (trace (shared s)) @ [c])"
proof -
  have inv: "race_inv c h (destroyed (trace w)) (deleted (trace w)) s"
    unfolding assms(4) using assms(3,2) race_inv_init [OF assms(1)] by (rule run_schedule_inv)
  note f = race_inv_facts [OF assms(2) inv]
  have d: "destroyed (trace (shared (conc_step c Cache_drain s))) = destroyed (trace (shared s)) \<and>
           deleted (trace (shared (conc_step c Cache_drain s))) = deleted (trace (shared s)) @ [c]"
    if "drain_pc s = Exchanged 0"
  proof -
    from f(6) that have "atomics (shared s) c = Some 0" by simp
    from step_saw_null [OF this] that show ?thesis by auto
  qed
  have k: "destroyed (trace (shared (conc_step c Context_callback s))) = destroyed (trace (shared s)) \<and>
           deleted (trace (shared (conc_step c Context_callback s))) = deleted (trace (shared s)) @ [c]"
    if "callback_pc s = Exchanged 0"
  proof -
    from f(6) that have "atomics (shared s) c = Some 0" by simp
    from step_saw_null [OF this] that assms(3) show ?thesis by (auto simp: callback_step_eq)
  qed
  from f(1) f(2) f(3) f(4) f(5) d k show ?thesis by blast
qed

lemmas race_eval = example_schedule_def conc_init_def two_entry_world_def fresh_world_def
  atomic_exchange_def delete_atomic_def cusparseDestroy_def handle_call_def external_call_def
  CUSPARSE_STATUS_SUCCESS_def

theorem destroy_exactly_once_witness:
  "destroyed (trace (shared (run_schedule 1 example_schedule (conc_init two_entry_world)))) = [1] \<and>
   deleted (trace (shared (run_schedule 1 example_schedule (conc_init two_entry_world)))) = [1] \<and>
   atomics (shared (run_schedule 1 example_schedule (conc_init two_entry_world))) 1 = None"
proof -
  let ?s = "run_schedule 1 example_schedule (conc_init two_entry_world)"
  have a: "atomics two_entry_world 1 = Some 1" by (simp add: two_entry_world_def)
  have n: "(1 :: nat) \<noteq> 0" by simp
  have e: "ended (drain_pc ?s) \<and> ended (callback_pc ?s)" by (simp add: race_eval)
  have b: "destroyed (trace two_entry_world) = [] \<and> deleted (trace two_entry_world) = []"
    by (simp add: two_entry_world_def fresh_world_def)
  from destroy_exactly_once [OF a n n refl, of example_schedule]
  have "ended (drain_pc ?s) \<and> ended (callback_pc ?s) \<longrightarrow>
          destroyed (trace (shared ?s)) = destroyed (trace two_entry_world) @ [1] \<and>
          deleted (trace (shared ?s)) = deleted (trace two_entry_world) @ [1] \<and>
          atomics (shared ?s) 1 = None"
    by (elim conjE)
  with e b show ?thesis by simp
qed

end
